theory Spec2Isabelle
  imports Complex_Main
begin

chapter \<open>float-liner: pane layout, block tree, executor and sync bridge\<close>

section \<open>Pane layout (usePaneStore.ts, lib/types)\<close>

text \<open>
  \<open>PaneNode\<close> is the tagged union \<open>PaneLeaf | PaneSplit\<close> of lib/types. Ids are
  JavaScript strings that the store only compares with \<open>===\<close>. The ratio is a
  JavaScript number; it is modelled as a real (no NaN).
\<close>

datatype split_direction = Horizontal | Vertical

datatype pane_node =
    PaneLeaf string string "string option"
  | PaneSplit string split_direction real pane_node pane_node

text \<open>\<open>node.id\<close>, a field both variants have.\<close>

fun node_id :: "pane_node \<Rightarrow> string" where
  "node_id (PaneLeaf i r f) = i"
| "node_id (PaneSplit i d q a b) = i"

record pane_layout =
  root :: pane_node
  activePaneId :: string

text \<open>
  The store: the layout and \<open>collapsedBlocks : Map<string, Set<string>>\<close>.
\<close>

record pane_store =
  layout :: pane_layout
  collapsedBlocks :: "string \<rightharpoonup> string set"

definition createPaneLeaf :: "string \<Rightarrow> string \<Rightarrow> pane_node" where
  "createPaneLeaf i rootBlock = PaneLeaf i rootBlock None"

definition createPaneSplit ::
  "string \<Rightarrow> split_direction \<Rightarrow> pane_node \<Rightarrow> pane_node \<Rightarrow> real \<Rightarrow> pane_node" where
  "createPaneSplit i d a b q = PaneSplit i d q a b"

text \<open>\<open>findNode\<close>: the first node in pre-order with the given id.\<close>

fun findNode :: "pane_node \<Rightarrow> string \<Rightarrow> pane_node option" where
  "findNode (PaneLeaf i r f) t = (if i = t then Some (PaneLeaf i r f) else None)"
| "findNode (PaneSplit i d q a b) t =
     (if i = t then Some (PaneSplit i d q a b)
      else (case findNode a t of Some n \<Rightarrow> Some n | None \<Rightarrow> findNode b t))"

text \<open>
  \<open>findParent\<close> returns a \<open>PaneSplit\<close>: its fields are returned as a tuple
  (id, direction, ratio, first, second).
\<close>

type_synonym pane_split = "string \<times> split_direction \<times> real \<times> pane_node \<times> pane_node"

fun findParent :: "pane_node \<Rightarrow> string \<Rightarrow> pane_split option" where
  "findParent (PaneLeaf i r f) t = None"
| "findParent (PaneSplit i d q a b) t =
     (if node_id a = t \<or> node_id b = t then Some (i, d, q, a, b)
      else (case findParent a t of Some p \<Rightarrow> Some p | None \<Rightarrow> findParent b t))"

fun replaceNode :: "pane_node \<Rightarrow> string \<Rightarrow> pane_node \<Rightarrow> pane_node" where
  "replaceNode (PaneLeaf i r f) t n = (if i = t then n else PaneLeaf i r f)"
| "replaceNode (PaneSplit i d q a b) t n =
     (if i = t then n else PaneSplit i d q (replaceNode a t n) (replaceNode b t n))"

fun collectLeaves :: "pane_node \<Rightarrow> pane_node list" where
  "collectLeaves (PaneLeaf i r f) = [PaneLeaf i r f]"
| "collectLeaves (PaneSplit i d q a b) = collectLeaves a @ collectLeaves b"

definition initialPaneId :: string where
  "initialPaneId = ''pane-1''"

definition initialLayout :: pane_layout where
  "initialLayout = \<lparr>root = createPaneLeaf initialPaneId ''root'', activePaneId = initialPaneId\<rparr>"

definition initialStore :: pane_store where
  "initialStore = \<lparr>layout = initialLayout, collapsedBlocks = Map.empty\<rparr>"

definition setActivePane :: "string \<Rightarrow> pane_store \<Rightarrow> pane_store" where
  "setActivePane paneId s = s\<lparr>layout := (layout s)\<lparr>activePaneId := paneId\<rparr>\<rparr>"

text \<open>
  \<open>splitPane\<close> draws two ids from \<open>uuidv4().slice(0, 8)\<close>; the two slices are the
  parameters \<open>u1\<close> and \<open>u2\<close>.
\<close>

definition splitPane ::
  "string \<Rightarrow> split_direction \<Rightarrow> string \<Rightarrow> string \<Rightarrow> pane_store \<Rightarrow> pane_store" where
  "splitPane paneId dir u1 u2 s =
     (case findNode (root (layout s)) paneId of
        None \<Rightarrow> s
      | Some (PaneSplit i d q a b) \<Rightarrow> s
      | Some (PaneLeaf i r f) \<Rightarrow>
          (let newPaneId = ''pane-'' @ u1;
               splitId = ''split-'' @ u2;
               newPane = createPaneLeaf newPaneId r;
               split = createPaneSplit splitId dir (PaneLeaf i r f) newPane (1/2);
               newRoot = replaceNode (root (layout s)) paneId split
           in s\<lparr>layout := \<lparr>root = newRoot, activePaneId = newPaneId\<rparr>\<rparr>))"

text \<open>
  \<open>closePane\<close>. \<open>newLeaves[0]?.id || initialPaneId\<close> falls back to
  \<open>initialPaneId\<close> when there is no first leaf or its id is the empty string.
\<close>

definition closePane :: "string \<Rightarrow> pane_store \<Rightarrow> pane_store" where
  "closePane paneId s =
     (let leaves = collectLeaves (root (layout s)) in
      if length leaves \<le> 1 then s
      else (case findParent (root (layout s)) paneId of
              None \<Rightarrow> s
            | Some (pid, d, q, a, b) \<Rightarrow>
                (let sibling = (if node_id a = paneId then b else a);
                     newRoot = replaceNode (root (layout s)) pid sibling;
                     newActiveId =
                       (if activePaneId (layout s) = paneId
                        then (case collectLeaves newRoot of
                                [] \<Rightarrow> initialPaneId
                              | x # xs \<Rightarrow> (if node_id x = [] then initialPaneId else node_id x))
                        else activePaneId (layout s))
                 in s\<lparr>layout := \<lparr>root = newRoot, activePaneId = newActiveId\<rparr>\<rparr>)))"

fun updateRatio :: "string \<Rightarrow> real \<Rightarrow> pane_node \<Rightarrow> pane_node" where
  "updateRatio splitId r (PaneSplit i d q a b) =
     (if i = splitId then PaneSplit i d (max (1/10) (min (9/10) r)) a b
      else PaneSplit i d q (updateRatio splitId r a) (updateRatio splitId r b))"
| "updateRatio splitId r (PaneLeaf i rb f) = PaneLeaf i rb f"

definition setRatio :: "string \<Rightarrow> real \<Rightarrow> pane_store \<Rightarrow> pane_store" where
  "setRatio splitId r s = s\<lparr>layout := (layout s)\<lparr>root := updateRatio splitId r (root (layout s))\<rparr>\<rparr>"

fun updatePaneRoot :: "string \<Rightarrow> string \<Rightarrow> pane_node \<Rightarrow> pane_node" where
  "updatePaneRoot paneId rootBlock (PaneLeaf i rb f) =
     (if i = paneId then PaneLeaf i rootBlock f else PaneLeaf i rb f)"
| "updatePaneRoot paneId rootBlock (PaneSplit i d q a b) =
     PaneSplit i d q (updatePaneRoot paneId rootBlock a) (updatePaneRoot paneId rootBlock b)"

definition setPaneRoot :: "string \<Rightarrow> string \<Rightarrow> pane_store \<Rightarrow> pane_store" where
  "setPaneRoot paneId rootBlock s =
     s\<lparr>layout := (layout s)\<lparr>root := updatePaneRoot paneId rootBlock (root (layout s))\<rparr>\<rparr>"

text \<open>The pane store's \<open>toggleCollapsed(paneId, blockId)\<close>.\<close>

definition toggleCollapsed :: "string \<Rightarrow> string \<Rightarrow> pane_store \<Rightarrow> pane_store" where
  "toggleCollapsed paneId blockId s =
     (let paneSet = (case collapsedBlocks s paneId of None \<Rightarrow> {} | Some S \<Rightarrow> S);
          paneSet' = (if blockId \<in> paneSet then paneSet - {blockId} else insert blockId paneSet)
      in s\<lparr>collapsedBlocks := (collapsedBlocks s)(paneId \<mapsto> paneSet')\<rparr>)"

definition isCollapsed :: "string \<Rightarrow> string \<Rightarrow> bool \<Rightarrow> pane_store \<Rightarrow> bool" where
  "isCollapsed paneId blockId blockDefault s =
     (case collapsedBlocks s paneId of
        None \<Rightarrow> blockDefault
      | Some paneSet \<Rightarrow> (if blockId \<in> paneSet then \<not> blockDefault else blockDefault))"

definition getPane :: "string \<Rightarrow> pane_store \<Rightarrow> pane_node option" where
  "getPane paneId s =
     (case findNode (root (layout s)) paneId of
        Some (PaneLeaf i r f) \<Rightarrow> Some (PaneLeaf i r f)
      | _ \<Rightarrow> None)"

definition getAllLeafPanes :: "pane_store \<Rightarrow> pane_node list" where
  "getAllLeafPanes s = collectLeaves (root (layout s))"

text \<open>
  The specification's description of \<open>isCollapsed\<close>, written from its words: the block
  default when the pane has no override set or the block is absent from it, its negation
  otherwise.
\<close>

definition overridden :: "pane_store \<Rightarrow> string \<Rightarrow> string \<Rightarrow> bool" where
  "overridden s paneId blockId =
     (case collapsedBlocks s paneId of None \<Rightarrow> False | Some paneSet \<Rightarrow> blockId \<in> paneSet)"


subsection \<open>Well-formedness of pane trees\<close>

text \<open>
  The ids of all nodes in pre-order, of the splits, and of the leaves (in the order of
  \<open>collectLeaves\<close>).
\<close>

fun node_ids :: "pane_node \<Rightarrow> string list" where
  "node_ids (PaneLeaf i r f) = [i]"
| "node_ids (PaneSplit i d q a b) = i # node_ids a @ node_ids b"

fun split_ids :: "pane_node \<Rightarrow> string list" where
  "split_ids (PaneLeaf i r f) = []"
| "split_ids (PaneSplit i d q a b) = i # split_ids a @ split_ids b"

definition leaf_ids :: "pane_node \<Rightarrow> string list" where
  "leaf_ids n = map node_id (collectLeaves n)"

text \<open>
  The PaneLayout invariant of the specification: the tree has at least one Leaf and
  \<open>activePaneId\<close> is the id of a Leaf of the tree.
\<close>

definition layout_inv :: "pane_layout \<Rightarrow> bool" where
  "layout_inv l = (collectLeaves (root l) \<noteq> [] \<and> activePaneId l \<in> set (leaf_ids (root l)))"

subsection \<open>Example stores\<close>

definition twoPanes :: pane_store where
  "twoPanes = \<lparr>layout = \<lparr>root = PaneSplit ''split-1'' Vertical (1/2)
                  (PaneLeaf ''pane-1'' ''root'' None) (PaneLeaf ''pane-2'' ''root'' None),
                activePaneId = ''pane-2''\<rparr>,
               collapsedBlocks = [''pane-2'' \<mapsto> {''b1''}]\<rparr>"

definition nestedPanes :: pane_store where
  "nestedPanes = \<lparr>layout = \<lparr>root = PaneSplit ''split-1'' Vertical (1/2)
                    (PaneSplit ''split-2'' Horizontal (1/2)
                       (PaneLeaf ''pane-1'' ''root'' None) (PaneLeaf ''pane-2'' ''root'' None))
                    (PaneLeaf ''pane-3'' ''root'' None),
                  activePaneId = ''pane-1''\<rparr>,
                 collapsedBlocks = Map.empty\<rparr>"

text \<open>A tree in which two splits carry the same id.\<close>

definition dupSplitPanes :: pane_store where
  "dupSplitPanes = \<lparr>layout = \<lparr>root = PaneSplit ''split-1'' Vertical (1/2)
                    (PaneSplit ''split-1'' Horizontal (1/2)
                       (PaneLeaf ''pane-1'' ''root'' None) (PaneLeaf ''pane-2'' ''root'' None))
                    (PaneLeaf ''pane-3'' ''root'' None),
                  activePaneId = ''pane-3''\<rparr>,
                 collapsedBlocks = Map.empty\<rparr>"

text \<open>A tree with a leaf whose id is the empty string.\<close>

definition emptyIdPanes :: pane_store where
  "emptyIdPanes = \<lparr>layout = \<lparr>root = PaneSplit ''split-1'' Vertical (1/2)
                    (PaneLeaf [] ''root'' None) (PaneLeaf ''pane-2'' ''root'' None),
                  activePaneId = ''pane-2''\<rparr>,
                 collapsedBlocks = Map.empty\<rparr>"

section \<open>Block types and the shell executor (lib/types, lib/executor)\<close>

text \<open>
  Block content is a JavaScript string: a sequence of UTF-16 code units, modelled as a
  list of naturals. \<open>lit\<close> gives the code units of an ASCII literal.
\<close>

type_synonym js_string = "nat list"

definition lit :: "string \<Rightarrow> js_string" where
  "lit s = map of_char s"

text \<open>
  \<open>String.prototype.trim\<close> removes WhiteSpace and LineTerminator code units from both
  ends: TAB, LF, VT, FF, CR, SP, NBSP, U+1680, U+2000..U+200A, U+2028, U+2029, U+202F,
  U+205F, U+3000 and U+FEFF.
\<close>

definition isTrimmable :: "nat \<Rightarrow> bool" where
  "isTrimmable c =
     (c = 9 \<or> c = 10 \<or> c = 11 \<or> c = 12 \<or> c = 13 \<or> c = 32 \<or> c = 160 \<or> c = 5760 \<or>
      (8192 \<le> c \<and> c \<le> 8202) \<or> c = 8232 \<or> c = 8233 \<or> c = 8239 \<or> c = 8287 \<or>
      c = 12288 \<or> c = 65279)"

definition trim :: "js_string \<Rightarrow> js_string" where
  "trim s = rev (dropWhile isTrimmable (rev (dropWhile isTrimmable s)))"

text \<open>
  \<open>String.prototype.toLowerCase\<close>, as far as a comparison with an ASCII prefix can see
  it: the ASCII capitals, U+0130 (which becomes \<open>i\<close> followed by U+0307) and the Kelvin
  sign U+212A (which becomes \<open>k\<close>) are mapped; every other code unit, whose lower case
  is not ASCII, is left as it is.
\<close>

definition lowerUnit :: "nat \<Rightarrow> nat list" where
  "lowerUnit c =
     (if 65 \<le> c \<and> c \<le> 90 then [c + 32]
      else if c = 304 then [105, 775]
      else if c = 8490 then [107]
      else [c])"

definition toLowerCase :: "js_string \<Rightarrow> js_string" where
  "toLowerCase s = concat (map lowerUnit s)"

definition startsWith :: "js_string \<Rightarrow> js_string \<Rightarrow> bool" where
  "startsWith s p = (take (length p) s = p)"

datatype block_type = TyText | TySh | TyAi | TyCtx | TyDispatch | TyWeb | TyOutput | TyError

definition parseBlockType :: "js_string \<Rightarrow> block_type" where
  "parseBlockType content =
     (let trimmed = toLowerCase (trim content) in
      if startsWith trimmed (lit ''sh::'') \<or> startsWith trimmed (lit ''term::'') then TySh
      else if startsWith trimmed (lit ''ai::'') \<or> startsWith trimmed (lit ''chat::'') then TyAi
      else if startsWith trimmed (lit ''ctx::'') then TyCtx
      else if startsWith trimmed (lit ''dispatch::'') then TyDispatch
      else if startsWith trimmed (lit ''web::'') \<or> startsWith trimmed (lit ''link::'') then TyWeb
      else TyText)"

text \<open>
  \<open>normalizeQuotes\<close>: three global regular-expression replacements, of U+201C/U+201D by
  \<open>"\<close>, of U+2018/U+2019 by \<open>'\<close>, and of U+2013/U+2014 by \<open>-\<close>.
\<close>

definition replaceUnits :: "nat set \<Rightarrow> nat \<Rightarrow> js_string \<Rightarrow> js_string" where
  "replaceUnits from to s = map (\<lambda>c. if c \<in> from then to else c) s"

definition normalizeQuotes :: "js_string \<Rightarrow> js_string" where
  "normalizeQuotes str =
     replaceUnits {8211, 8212} 45 (replaceUnits {8216, 8217} 39 (replaceUnits {8220, 8221} 34 str))"

text \<open>
  \<open>extractShellCommand\<close>. \<open>command ? normalizeQuotes(command) : null\<close> gives \<open>null\<close> for
  the empty command too.
\<close>

definition extractShellCommand :: "js_string \<Rightarrow> js_string option" where
  "extractShellCommand content =
     (let trimmed = trim content;
          lower = toLowerCase trimmed;
          command =
            (if startsWith lower (lit ''sh::'') then Some (trim (drop 4 trimmed))
             else if startsWith lower (lit ''term::'') then Some (trim (drop 6 trimmed))
             else None)
      in case command of
           None \<Rightarrow> None
         | Some c \<Rightarrow> (if c = [] then None else Some (normalizeQuotes c)))"

definition isExecutableShellBlock :: "js_string \<Rightarrow> bool" where
  "isExecutableShellBlock content =
     (case extractShellCommand content of None \<Rightarrow> False | Some c \<Rightarrow> length c > 0)"

text \<open>
  The straight equivalent of a code unit: \<open>"\<close> for the curly double quotes, \<open>'\<close> for
  the curly single quotes, \<open>-\<close> for the en and em dash, the unit itself otherwise.
\<close>

definition straightUnit :: "nat \<Rightarrow> nat" where
  "straightUnit c =
     (if c = 8220 \<or> c = 8221 then 34
      else if c = 8216 \<or> c = 8217 then 39
      else if c = 8211 \<or> c = 8212 then 45
      else c)"

text \<open>The smart quotes and dashes that \<open>normalizeQuotes\<close> replaces.\<close>

definition smartUnits :: "nat set" where
  "smartUnits = {8220, 8221} \<union> {8216, 8217} \<union> {8211, 8212}"

text \<open>The content \<open>sh:: ls \<close>, a dash \<open>d\<close>, \<open>la\<close>.\<close>

definition lsContent :: "nat \<Rightarrow> js_string" where
  "lsContent d = lit ''sh:: ls '' @ [d] @ lit ''la''"

section \<open>Synchronization bridge (useSyncedYDoc, executeShellBlock)\<close>

text \<open>
  The bridge state the update handler reads and writes: \<open>isApplyingRemoteRef\<close> and
  \<open>syncTimerRef\<close> (the handle of the pending debounce timer); \<open>timerCount\<close> numbers the
  handles \<open>window.setTimeout\<close> hands out. The origin of a document update is either the
  string \<open>'remote'\<close> or anything else (\<open>undefined\<close> for \<open>Y.applyUpdate\<close> called without
  an origin and for the block store's transactions).
\<close>

datatype origin = RemoteOrigin | OtherOrigin

record bridge =
  isApplyingRemote :: bool
  syncTimer :: "nat option"
  timerCount :: nat

text \<open>\<open>debouncedSync\<close>: clear the pending timer, if any, and start a new one.\<close>

definition debouncedSync :: "bridge \<Rightarrow> bridge" where
  "debouncedSync b = b\<lparr>syncTimer := Some (Suc (timerCount b)), timerCount := Suc (timerCount b)\<rparr>"

definition updateHandler :: "origin \<Rightarrow> bridge \<Rightarrow> bridge" where
  "updateHandler org b = (if org = RemoteOrigin \<or> isApplyingRemote b then b else debouncedSync b)"

text \<open>
  \<open>Y.applyUpdate(doc, update, origin)\<close> on the document the handler is attached to, for
  an update that changes the document: the document emits \<open>update\<close> with the origin of
  the call.
\<close>

definition applyUpdate :: "origin \<Rightarrow> bridge \<Rightarrow> bridge" where
  "applyUpdate org b = updateHandler org b"

definition loadInitialState :: "bridge \<Rightarrow> bridge" where
  "loadInitialState b =
     (let b1 = b\<lparr>isApplyingRemote := True\<rparr>;
          b2 = applyUpdate OtherOrigin b1
      in b2\<lparr>isApplyingRemote := False\<rparr>)"

text \<open>
  \<open>reloadFromState\<close> clears the timer and applies the snapshot to a fresh document, to
  which no handler is attached yet, with the flag set.
\<close>

definition reloadFromState :: "bridge \<Rightarrow> bridge" where
  "reloadFromState b =
     (let b1 = b\<lparr>syncTimer := None\<rparr>;
          b2 = b1\<lparr>isApplyingRemote := True\<rparr>
      in b2\<lparr>isApplyingRemote := False\<rparr>)"

text \<open>
  \<open>executeShellBlock\<close> applies the state returned by the backend with
  \<open>Y.applyUpdate(doc, updateBytes)\<close>: no origin, and the flag is not touched.
\<close>

definition executeShellBlock :: "bridge \<Rightarrow> bridge" where
  "executeShellBlock b = applyUpdate OtherOrigin b"

definition idleBridge :: bridge where
  "idleBridge = \<lparr>isApplyingRemote = False, syncTimer = None, timerCount = 0\<rparr>"

section \<open>Block store (useBlockStore, lib/types)\<close>

text \<open>
  A \<open>Block\<close>, as \<open>toBlock\<close> reads it from the document and \<open>blockToPlainObject\<close>
  writes it. The optional execution metadata (\<open>status\<close>, \<open>exitCode\<close>), which no
  operation of the store reads or writes, is left out. Timestamps are \<open>Date.now()\<close>
  milliseconds.
\<close>

record block =
  block_id :: string
  parentId :: "string option"
  childIds :: "string list"
  content :: js_string
  btype :: block_type
  collapsed :: bool
  createdAt :: nat
  updatedAt :: nat

text \<open>
  The replicated document: the \<open>blocks\<close> map and the \<open>rootIds\<close> array. The store's
  \<open>blocks\<close> and \<open>rootIds\<close> are the snapshot that \<open>_syncFromYDoc\<close> takes of them
  after a transaction; an operation reads the snapshot as it is when the operation
  starts. \<open>_syncFromYDoc\<close> is not modelled: one state stands for the document and for
  the snapshot. The two agree when the store is attached. Along the operations from a
  state that satisfies the tree invariants below they keep agreeing on all that an
  operation reads (the keys, \<open>parentId\<close>, \<open>childIds\<close>, \<open>collapsed\<close> and the root
  order): there a transaction that changes a \<open>parentId\<close> also changes some \<open>childIds\<close>
  or the set of keys, which \<open>_syncFromYDoc\<close> detects (it compares the size, and per
  block \<open>content\<close>, \<open>collapsed\<close> and \<open>childIds\<close>, not \<open>parentId\<close>). Outside these
  states the snapshot can keep an old \<open>parentId\<close>, so a theorem that depends on a
  \<open>parentId\<close> read by an operation is stated for states satisfying the invariants.
  The store is attached to a document (\<open>_doc\<close> is not null).
\<close>

record block_store =
  blocks :: "string \<rightharpoonup> block"
  rootIds :: "string list"

definition createBlock :: "string \<Rightarrow> js_string \<Rightarrow> string option \<Rightarrow> nat \<Rightarrow> block" where
  "createBlock i c p now =
     \<lparr>block_id = i, parentId = p, childIds = [], content = c, btype = parseBlockType c,
      collapsed = False, createdAt = now, updatedAt = now\<rparr>"

text \<open>
  \<open>blocks.get(id)\<close> on the snapshot, read here from the one state that stands for
  both: \<open>toBlock\<close> drops an entry whose \<open>id\<close> field is empty.
\<close>

definition getBlock :: "block_store \<Rightarrow> string \<Rightarrow> block option" where
  "getBlock s i =
     (case blocks s i of
        None \<Rightarrow> None
      | Some b \<Rightarrow> (if block_id b = [] then None else Some b))"

text \<open>
  \<open>if (block.parentId)\<close>: the parent id when it is a non-empty string, nothing when it
  is \<open>null\<close> or the empty string.
\<close>

definition truthyParent :: "block \<Rightarrow> string option" where
  "truthyParent b = (case parentId b of None \<Rightarrow> None | Some p \<Rightarrow> (if p = [] then None else Some p))"

text \<open>\<open>Array.prototype.indexOf\<close>: the first index, or -1.\<close>

fun indexOf :: "'a list \<Rightarrow> 'a \<Rightarrow> int" where
  "indexOf [] x = -1"
| "indexOf (y # ys) x =
     (if y = x then 0 else (let r = indexOf ys x in if r < 0 then -1 else r + 1))"

text \<open>
  \<open>splice(n, 0, x)\<close> and \<open>Y.Array.insert(n, xs)\<close>; \<open>Y.Array.delete(n, k)\<close>. The store
  calls them with positions inside the array.
\<close>

definition insertAt :: "nat \<Rightarrow> 'a list \<Rightarrow> 'a list \<Rightarrow> 'a list" where
  "insertAt n ys xs = take n xs @ ys @ drop n xs"

definition deleteAt :: "nat \<Rightarrow> nat \<Rightarrow> 'a list \<Rightarrow> 'a list" where
  "deleteAt n k xs = take n xs @ drop (n + k) xs"

text \<open>
  \<open>getValue(blocksMap.get(id), 'childIds') || []\<close> on the document inside a
  transaction.
\<close>

definition childIdsOf :: "(string \<rightharpoonup> block) \<Rightarrow> string \<Rightarrow> string list" where
  "childIdsOf m i = (case m i of None \<Rightarrow> [] | Some b \<Rightarrow> childIds b)"

text \<open>\<open>setValueOnYMap\<close>: rewrites one field of an existing entry, nothing otherwise.\<close>

definition setValueOnYMap ::
  "string \<Rightarrow> (block \<Rightarrow> block) \<Rightarrow> (string \<rightharpoonup> block) \<Rightarrow> (string \<rightharpoonup> block)" where
  "setValueOnYMap i f m = (case m i of None \<Rightarrow> m | Some b \<Rightarrow> m(i \<mapsto> f b))"

definition setChildIds :: "string \<Rightarrow> string list \<Rightarrow> (string \<rightharpoonup> block) \<Rightarrow> (string \<rightharpoonup> block)" where
  "setChildIds i cs = setValueOnYMap i (\<lambda>b. b\<lparr>childIds := cs\<rparr>)"

definition setParentId :: "string \<Rightarrow> string option \<Rightarrow> (string \<rightharpoonup> block) \<Rightarrow> (string \<rightharpoonup> block)" where
  "setParentId i p = setValueOnYMap i (\<lambda>b. b\<lparr>parentId := p\<rparr>)"

definition setCollapsed :: "string \<Rightarrow> bool \<Rightarrow> (string \<rightharpoonup> block) \<Rightarrow> (string \<rightharpoonup> block)" where
  "setCollapsed i c = setValueOnYMap i (\<lambda>b. b\<lparr>collapsed := c\<rparr>)"

definition setUpdatedAt :: "string \<Rightarrow> nat \<Rightarrow> (string \<rightharpoonup> block) \<Rightarrow> (string \<rightharpoonup> block)" where
  "setUpdatedAt i t = setValueOnYMap i (\<lambda>b. b\<lparr>updatedAt := t\<rparr>)"

definition updateBlockContent :: "string \<Rightarrow> js_string \<Rightarrow> nat \<Rightarrow> block_store \<Rightarrow> block_store" where
  "updateBlockContent i c now s =
     s\<lparr>blocks := setUpdatedAt i now
                   (setValueOnYMap i (\<lambda>b. b\<lparr>btype := parseBlockType c\<rparr>)
                     (setValueOnYMap i (\<lambda>b. b\<lparr>content := c\<rparr>) (blocks s)))\<rparr>"

text \<open>
  The creating operations take the fresh \<open>uuidv4()\<close> as \<open>newId\<close> and \<open>Date.now()\<close> as
  \<open>now\<close>; they return the new id, or the empty string, with the new state.
\<close>

definition createBlockAfter ::
  "string \<Rightarrow> string \<Rightarrow> nat \<Rightarrow> block_store \<Rightarrow> string \<times> block_store" where
  "createBlockAfter afterId newId now s =
     (case getBlock s afterId of
        None \<Rightarrow> ([], s)
      | Some afterBlock \<Rightarrow>
          (let newBlock = createBlock newId [] (parentId afterBlock) now;
               m1 = (blocks s)(newId \<mapsto> newBlock)
           in case truthyParent afterBlock of
                Some pid \<Rightarrow>
                  (let cs = childIdsOf m1 pid;
                       afterIndex = indexOf cs afterId
                   in (newId, s\<lparr>blocks := setChildIds pid (insertAt (nat (afterIndex + 1)) [newId] cs) m1\<rparr>))
              | None \<Rightarrow>
                  (let arr = rootIds s;
                       afterIndex = indexOf arr afterId
                   in (newId, s\<lparr>blocks := m1, rootIds := insertAt (nat (afterIndex + 1)) [newId] arr\<rparr>))))"

definition createBlockInside ::
  "string \<Rightarrow> string \<Rightarrow> nat \<Rightarrow> block_store \<Rightarrow> string \<times> block_store" where
  "createBlockInside pid newId now s =
     (case getBlock s pid of
        None \<Rightarrow> ([], s)
      | Some parentBlock \<Rightarrow>
          (let newBlock = createBlock newId [] (Some pid) now;
               m1 = (blocks s)(newId \<mapsto> newBlock);
               cs = childIdsOf m1 pid @ [newId];
               m2 = setChildIds pid cs m1;
               m3 = setCollapsed pid False m2
           in (newId, s\<lparr>blocks := m3\<rparr>)))"

text \<open>
  Removal from \<open>rootIds\<close>: \<open>indexOf\<close>, then \<open>delete(index, 1)\<close> when the index is not
  negative.
\<close>

definition removeRoot :: "string \<Rightarrow> string list \<Rightarrow> string list" where
  "removeRoot i arr = (let index = indexOf arr i in if index \<ge> 0 then deleteAt (nat index) 1 arr else arr)"

definition deleteBlock :: "string \<Rightarrow> block_store \<Rightarrow> block_store" where
  "deleteBlock i s =
     (case getBlock s i of
        None \<Rightarrow> s
      | Some block \<Rightarrow>
          (if length (childIds block) > 0 then s
           else (case truthyParent block of
                   Some pid \<Rightarrow>
                     (let cs = filter (\<lambda>cid. cid \<noteq> i) (childIdsOf (blocks s) pid);
                          m1 = setChildIds pid cs (blocks s)
                      in s\<lparr>blocks := m1(i := None)\<rparr>)
                 | None \<Rightarrow>
                     s\<lparr>blocks := (blocks s)(i := None), rootIds := removeRoot i (rootIds s)\<rparr>)))"

text \<open>
  The sibling array the snapshot gives for a block: the parent's \<open>childIds\<close> (empty when
  the parent is missing) or \<open>rootIds\<close>.
\<close>

definition siblingsOf :: "block_store \<Rightarrow> block \<Rightarrow> string list" where
  "siblingsOf s block =
     (case truthyParent block of
        Some pid \<Rightarrow> (case getBlock s pid of None \<Rightarrow> [] | Some parent \<Rightarrow> childIds parent)
      | None \<Rightarrow> rootIds s)"

definition indentBlock :: "string \<Rightarrow> nat \<Rightarrow> block_store \<Rightarrow> block_store" where
  "indentBlock i now s =
     (case getBlock s i of
        None \<Rightarrow> s
      | Some block \<Rightarrow>
          (let siblings = siblingsOf s block;
               index = indexOf siblings i
           in if index \<le> 0 then s
              else (let newParentId = siblings ! nat (index - 1) in
                    case getBlock s newParentId of
                      None \<Rightarrow> s
                    | Some newParent \<Rightarrow>
                        (let s1 = (case truthyParent block of
                                     Some pid \<Rightarrow>
                                       s\<lparr>blocks := setChildIds pid
                                            (filter (\<lambda>cid. cid \<noteq> i) (childIdsOf (blocks s) pid)) (blocks s)\<rparr>
                                   | None \<Rightarrow> s\<lparr>rootIds := removeRoot i (rootIds s)\<rparr>);
                             newChildIds = childIdsOf (blocks s1) newParentId @ [i];
                             m2 = setChildIds newParentId newChildIds (blocks s1);
                             m3 = setCollapsed newParentId False m2;
                             m4 = setParentId i (Some newParentId) m3;
                             m5 = setUpdatedAt i now m4
                         in s1\<lparr>blocks := m5\<rparr>))))"

definition outdentBlock :: "string \<Rightarrow> nat \<Rightarrow> block_store \<Rightarrow> block_store" where
  "outdentBlock i now s =
     (case getBlock s i of
        None \<Rightarrow> s
      | Some block \<Rightarrow>
          (case truthyParent block of
             None \<Rightarrow> s
           | Some pid \<Rightarrow>
               (case getBlock s pid of
                  None \<Rightarrow> s
                | Some parent \<Rightarrow>
                    (let m1 = setChildIds pid
                                (filter (\<lambda>cid. cid \<noteq> i) (childIdsOf (blocks s) pid)) (blocks s);
                         s2 = (case truthyParent parent of
                                 Some gid \<Rightarrow>
                                   (let cs = childIdsOf m1 gid;
                                        parentIndex = indexOf cs pid
                                    in s\<lparr>blocks := setChildIds gid
                                                       (insertAt (nat (parentIndex + 1)) [i] cs) m1\<rparr>)
                               | None \<Rightarrow>
                                   (let arr = rootIds s;
                                        parentIndex = indexOf arr pid
                                    in s\<lparr>blocks := m1,
                                         rootIds := insertAt (nat (parentIndex + 1)) [i] arr\<rparr>));
                         m3 = setParentId i (parentId parent) (blocks s2);
                         m4 = setUpdatedAt i now m3
                     in s2\<lparr>blocks := m4\<rparr>))))"

text \<open>
  The destructuring swap \<open>[a[i], a[j]] = [a[j], a[i]]\<close> on a copy of the array.
\<close>

definition swapAt :: "nat \<Rightarrow> nat \<Rightarrow> 'a list \<Rightarrow> 'a list" where
  "swapAt i j xs = xs[i := xs ! j, j := xs ! i]"

definition moveBlockUp :: "string \<Rightarrow> nat \<Rightarrow> block_store \<Rightarrow> block_store" where
  "moveBlockUp i now s =
     (case getBlock s i of
        None \<Rightarrow> s
      | Some block \<Rightarrow>
          (let siblings = siblingsOf s block;
               index = indexOf siblings i
           in if index \<le> 0 then s
              else (let k = nat index;
                        s1 = (case truthyParent block of
                                None \<Rightarrow>
                                  s\<lparr>rootIds := insertAt (k - 1) [i, siblings ! (k - 1)]
                                                  (deleteAt (k - 1) 2 (rootIds s))\<rparr>
                              | Some pid \<Rightarrow>
                                  s\<lparr>blocks := setChildIds pid (swapAt (k - 1) k siblings) (blocks s)\<rparr>)
                    in s1\<lparr>blocks := setUpdatedAt i now (blocks s1)\<rparr>)))"

definition moveBlockDown :: "string \<Rightarrow> nat \<Rightarrow> block_store \<Rightarrow> block_store" where
  "moveBlockDown i now s =
     (case getBlock s i of
        None \<Rightarrow> s
      | Some block \<Rightarrow>
          (let siblings = siblingsOf s block;
               index = indexOf siblings i
           in if index < 0 \<or> index \<ge> int (length siblings) - 1 then s
              else (let k = nat index;
                        s1 = (case truthyParent block of
                                None \<Rightarrow>
                                  s\<lparr>rootIds := insertAt k [siblings ! (k + 1), i]
                                                  (deleteAt k 2 (rootIds s))\<rparr>
                              | Some pid \<Rightarrow>
                                  s\<lparr>blocks := setChildIds pid (swapAt k (k + 1) siblings) (blocks s)\<rparr>)
                    in s1\<lparr>blocks := setUpdatedAt i now (blocks s1)\<rparr>)))"

text \<open>The block store's \<open>toggleCollapsed(id)\<close>.\<close>

definition toggleCollapsed_block :: "string \<Rightarrow> block_store \<Rightarrow> block_store" where
  "toggleCollapsed_block i s =
     (case getBlock s i of
        None \<Rightarrow> s
      | Some block \<Rightarrow>
          (if length (childIds block) = 0 then s
           else s\<lparr>blocks := setCollapsed i (\<not> collapsed block) (blocks s)\<rparr>))"

subsection \<open>The scenario of the specification\<close>

text \<open>Root order \<open>[A]\<close>; \<open>A\<close> has the children \<open>[B, C]\<close>, both leaves.\<close>

definition plainBlock :: "string \<Rightarrow> string option \<Rightarrow> string list \<Rightarrow> block" where
  "plainBlock i p cs =
     \<lparr>block_id = i, parentId = p, childIds = cs, content = [], btype = TyText,
      collapsed = False, createdAt = 0, updatedAt = 0\<rparr>"

definition scenario :: block_store where
  "scenario =
     \<lparr>blocks = [''A'' \<mapsto> plainBlock ''A'' None [''B'', ''C''],
                ''B'' \<mapsto> plainBlock ''B'' (Some ''A'') [],
                ''C'' \<mapsto> plainBlock ''C'' (Some ''A'') []],
      rootIds = [''A'']\<rparr>"

text \<open>The scenario after \<open>moveBlockDown(B)\<close> at time \<open>t\<close>, and then \<open>outdentBlock(C)\<close> at time \<open>u\<close>.\<close>

definition afterMove :: "nat \<Rightarrow> block_store" where
  "afterMove t =
     \<lparr>blocks = [''A'' \<mapsto> plainBlock ''A'' None [''C'', ''B''],
                ''B'' \<mapsto> (plainBlock ''B'' (Some ''A'') [])\<lparr>updatedAt := t\<rparr>,
                ''C'' \<mapsto> plainBlock ''C'' (Some ''A'') []],
      rootIds = [''A'']\<rparr>"

definition afterOutdent :: "nat \<Rightarrow> nat \<Rightarrow> block_store" where
  "afterOutdent t u =
     \<lparr>blocks = [''A'' \<mapsto> plainBlock ''A'' None [''B''],
                ''B'' \<mapsto> (plainBlock ''B'' (Some ''A'') [])\<lparr>updatedAt := t\<rparr>,
                ''C'' \<mapsto> (plainBlock ''C'' None [])\<lparr>updatedAt := u\<rparr>],
      rootIds = [''A'', ''C'']\<rparr>"

subsection \<open>The tree invariants of the data model\<close>

text \<open>
  What the store sees of a document entry: its parent, its id field, and the ordered
  sequence found at a place (\<open>None\<close> is the root order, \<open>Some p\<close> the \<open>childIds\<close> of
  \<open>p\<close>).
\<close>

definition parentOf :: "(string \<rightharpoonup> block) \<Rightarrow> string \<Rightarrow> string option option" where
  "parentOf m c = map_option parentId (m c)"

definition idOf :: "(string \<rightharpoonup> block) \<Rightarrow> string \<Rightarrow> string option" where
  "idOf m c = map_option block_id (m c)"

definition refs :: "block_store \<Rightarrow> string option \<Rightarrow> string list" where
  "refs s P = (case P of None \<Rightarrow> rootIds s | Some p \<Rightarrow> childIdsOf (blocks s) p)"

text \<open>
  The invariants in the words of the specification. Every entry of the document is a
  live block stored under its own, non-empty id (\<open>keyed\<close>). No id occurs twice: not
  within the root order or one \<open>childIds\<close>, and not in two of these sequences
  (\<open>no_duplicates\<close>). No id dangles (\<open>no_dangling\<close>). Every live block is a root (no
  parent, in the root order) or has a parent and is in that parent's \<open>childIds\<close>
  (\<open>parent_or_root\<close>).
\<close>

definition keyed :: "block_store \<Rightarrow> bool" where
  "keyed s = (\<forall>i b. blocks s i = Some b \<longrightarrow> block_id b = i \<and> i \<noteq> [])"

definition no_duplicates :: "block_store \<Rightarrow> bool" where
  "no_duplicates s =
     ((\<forall>P. distinct (refs s P)) \<and>
      (\<forall>P Q. P \<noteq> Q \<longrightarrow> set (refs s P) \<inter> set (refs s Q) = {}))"

definition no_dangling :: "block_store \<Rightarrow> bool" where
  "no_dangling s = (\<forall>P. set (refs s P) \<subseteq> dom (blocks s))"

definition parent_or_root :: "block_store \<Rightarrow> bool" where
  "parent_or_root s = (\<forall>i b. blocks s i = Some b \<longrightarrow> i \<in> set (refs s (parentId b)))"

definition tree_inv :: "block_store \<Rightarrow> bool" where
  "tree_inv s = (keyed s \<and> no_duplicates s \<and> no_dangling s \<and> parent_or_root s)"

text \<open>
  The same invariants by parent pointers: every sequence is duplicate-free and lists
  exactly the live blocks whose \<open>parentId\<close> names its place.
\<close>

definition tree_ok :: "block_store \<Rightarrow> bool" where
  "tree_ok s =
     (keyed s \<and> (\<forall>P. distinct (refs s P)) \<and>
      (\<forall>P c. (c \<in> set (refs s P)) = (parentOf (blocks s) c = Some P)))"

subsection \<open>Sequences of mutations\<close>

datatype block_op =
    CreateAfter string string nat
  | CreateInside string string nat
  | Delete string
  | Indent string nat
  | Outdent string nat
  | MoveUp string nat
  | MoveDown string nat

fun applyOp :: "block_op \<Rightarrow> block_store \<Rightarrow> block_store" where
  "applyOp (CreateAfter a n t) s = snd (createBlockAfter a n t s)"
| "applyOp (CreateInside p n t) s = snd (createBlockInside p n t s)"
| "applyOp (Delete i) s = deleteBlock i s"
| "applyOp (Indent i t) s = indentBlock i t s"
| "applyOp (Outdent i t) s = outdentBlock i t s"
| "applyOp (MoveUp i t) s = moveBlockUp i t s"
| "applyOp (MoveDown i t) s = moveBlockDown i t s"

text \<open>The states after each step of a sequence.\<close>

fun trace :: "block_store \<Rightarrow> block_op list \<Rightarrow> block_store list" where
  "trace s [] = []"
| "trace s (x # xs) = applyOp x s # trace (applyOp x s) xs"

text \<open>
  The ids that the creating operations of a sequence draw are fresh: a \<open>uuidv4()\<close> is
  not empty and not the id of a block of the document at that step.
\<close>

fun freshId :: "block_op \<Rightarrow> block_store \<Rightarrow> bool" where
  "freshId (CreateAfter a n t) s = (n \<noteq> [] \<and> blocks s n = None)"
| "freshId (CreateInside p n t) s = (n \<noteq> [] \<and> blocks s n = None)"
| "freshId x s = True"

fun freshIds :: "block_store \<Rightarrow> block_op list \<Rightarrow> bool" where
  "freshIds s [] = True"
| "freshIds s (x # xs) = (freshId x s \<and> freshIds (applyOp x s) xs)"

section \<open>Theorems: collapse overlay\<close>

lemma overridden_toggle:
  "overridden (toggleCollapsed p b s) p b = (\<not> overridden s p b)"
  by (simp add: overridden_def toggleCollapsed_def split: option.splits)

lemma isCollapsed_overridden:
  "isCollapsed p b d s = (if overridden s p b then \<not> d else d)"
  by (simp add: isCollapsed_def overridden_def split: option.splits)

text \<open>
  C10. \<open>isCollapsed(paneId, blockId, blockDefault)\<close> is \<open>blockDefault\<close> when the pane
  has no override set or the block id is absent from it, and \<open>\<not> blockDefault\<close>
  otherwise; a single toggle flips it, and toggling the same block in the same pane twice
  gives back the value before either toggle.
\<close>

theorem isCollapsed_toggle_twice:
  "isCollapsed p b d s = (if overridden s p b then \<not> d else d) \<and>
   overridden s p b = (case collapsedBlocks s p of None \<Rightarrow> False | Some S \<Rightarrow> b \<in> S) \<and>
   isCollapsed p b d (toggleCollapsed p b s) = (\<not> isCollapsed p b d s) \<and>
   isCollapsed p b d (toggleCollapsed p b (toggleCollapsed p b s)) = isCollapsed p b d s"
  by (simp add: isCollapsed_overridden overridden_toggle) (simp add: overridden_def)


section \<open>Theorems: pane tree\<close>

lemma leaf_ids_simps [simp]:
  "leaf_ids (PaneLeaf i r f) = [i]"
  "leaf_ids (PaneSplit i d q a b) = leaf_ids a @ leaf_ids b"
  by (simp_all add: leaf_ids_def)

lemma collectLeaves_nonempty: "collectLeaves n \<noteq> []"
  by (induction n) auto

lemma leaf_below_split:
  "p \<in> set (leaf_ids a) \<Longrightarrow> node_id a \<noteq> p \<Longrightarrow> 1 < length (collectLeaves a)"
proof (cases a)
  case (PaneLeaf i r f)
  assume "p \<in> set (leaf_ids a)" "node_id a \<noteq> p"
  with PaneLeaf show ?thesis by simp
next
  case (PaneSplit i d q x y)
  have "collectLeaves x \<noteq> []" "collectLeaves y \<noteq> []"
    by (rule collectLeaves_nonempty)+
  with PaneSplit show ?thesis
    by (cases "collectLeaves x"; cases "collectLeaves y") auto
qed

lemma node_id_in_node_ids: "node_id n \<in> set (node_ids n)"
  by (cases n) auto

lemma set_node_ids: "set (node_ids n) = set (leaf_ids n) \<union> set (split_ids n)"
  by (induction n) auto

lemma replaceNode_absent: "t \<notin> set (node_ids n) \<Longrightarrow> replaceNode n t x = n"
  by (induction n) auto

lemma findParent_absent: "t \<notin> set (node_ids n) \<Longrightarrow> findParent n t = None"
proof (induction n)
  case (PaneLeaf i r f)
  then show ?case by simp
next
  case (PaneSplit i d q a b)
  have "node_id a \<in> set (node_ids a)" "node_id b \<in> set (node_ids b)"
    by (rule node_id_in_node_ids)+
  with PaneSplit show ?case by auto
qed

lemma leaf_with_node_id:
  "node_id n \<in> set (leaf_ids n) \<Longrightarrow> distinct (node_ids n) \<Longrightarrow> \<exists>r f. n = PaneLeaf (node_id n) r f"
proof (cases n)
  case (PaneLeaf i r f)
  then show ?thesis by simp
next
  case (PaneSplit i d q a b)
  assume "node_id n \<in> set (leaf_ids n)" "distinct (node_ids n)"
  with PaneSplit have "i \<in> set (leaf_ids a) \<union> set (leaf_ids b)" "i \<notin> set (node_ids a) \<union> set (node_ids b)"
    by auto
  then show ?thesis by (auto simp: set_node_ids)
qed

lemma filter_leaves_absent:
  "p \<notin> set (node_ids n) \<Longrightarrow> filter (\<lambda>x. node_id x \<noteq> p) (collectLeaves n) = collectLeaves n"
proof -
  assume "p \<notin> set (node_ids n)"
  then have "p \<notin> set (leaf_ids n)" by (simp add: set_node_ids)
  then show ?thesis by (auto simp: leaf_ids_def filter_id_conv)
qed

lemma closePane_core:
  "distinct (node_ids t) \<Longrightarrow> p \<in> set (leaf_ids t) \<Longrightarrow> 1 < length (collectLeaves t) \<Longrightarrow>
   \<exists>pid d q a b. findParent t p = Some (pid, d, q, a, b) \<and> pid \<in> set (split_ids t) \<and>
      collectLeaves (replaceNode t pid (if node_id a = p then b else a)) =
        filter (\<lambda>x. node_id x \<noteq> p) (collectLeaves t)"
proof (induction t)
  case (PaneLeaf i r f)
  then show ?case by simp
next
  case (PaneSplit i d q a b)
  have ia: "node_id a \<in> set (node_ids a)" and ib: "node_id b \<in> set (node_ids b)"
    by (rule node_id_in_node_ids)+
  from PaneSplit.prems have da: "distinct (node_ids a)" and db: "distinct (node_ids b)"
    and disj: "set (node_ids a) \<inter> set (node_ids b) = {}"
    and ni: "i \<notin> set (node_ids a)" "i \<notin> set (node_ids b)"
    by auto
  from PaneSplit.prems have pin: "p \<in> set (leaf_ids a) \<or> p \<in> set (leaf_ids b)" by auto
  show ?case
  proof (cases "node_id a = p")
    case True
    then have "p \<in> set (node_ids a)" using ia by simp
    then have pb: "p \<notin> set (node_ids b)" using disj by auto
    then have "p \<in> set (leaf_ids a)" using pin by (auto simp: set_node_ids)
    then obtain r f where a: "a = PaneLeaf p r f"
      using leaf_with_node_id[of a] da True by auto
    show ?thesis using True a pb by (simp add: filter_leaves_absent)
  next
    case na: False
    show ?thesis
    proof (cases "node_id b = p")
      case True
      then have "p \<in> set (node_ids b)" using ib by simp
      then have pa: "p \<notin> set (node_ids a)" using disj by auto
      then have "p \<in> set (leaf_ids b)" using pin by (auto simp: set_node_ids)
      then obtain r f where b: "b = PaneLeaf p r f"
        using leaf_with_node_id[of b] db True by auto
      show ?thesis using True na b pa by (simp add: filter_leaves_absent)
    next
      case nb: False
      show ?thesis
      proof (cases "p \<in> set (leaf_ids a)")
        case True
        then have "p \<in> set (node_ids a)" by (simp add: set_node_ids)
        then have pb: "p \<notin> set (node_ids b)" using disj by auto
        have "1 < length (collectLeaves a)"
          using True na by (rule leaf_below_split)
        from PaneSplit.IH(1)[OF da True this]
        obtain pid d' q' a' b' where fp: "findParent a p = Some (pid, d', q', a', b')"
          and pid: "pid \<in> set (split_ids a)"
          and cl: "collectLeaves (replaceNode a pid (if node_id a' = p then b' else a')) =
                   filter (\<lambda>x. node_id x \<noteq> p) (collectLeaves a)" by blast
        from pid have "pid \<in> set (node_ids a)" by (simp add: set_node_ids)
        then have "pid \<noteq> i" "pid \<notin> set (node_ids b)" using ni disj by auto
        then show ?thesis using fp pid cl na nb pb
          by (simp add: replaceNode_absent filter_leaves_absent)
      next
        case False
        then have pbl: "p \<in> set (leaf_ids b)" using pin by simp
        then have "p \<in> set (node_ids b)" by (simp add: set_node_ids)
        then have pa: "p \<notin> set (node_ids a)" using disj by auto
        have "1 < length (collectLeaves b)"
          using pbl nb by (rule leaf_below_split)
        from PaneSplit.IH(2)[OF db pbl this]
        obtain pid d' q' a' b' where fp: "findParent b p = Some (pid, d', q', a', b')"
          and pid: "pid \<in> set (split_ids b)"
          and cl: "collectLeaves (replaceNode b pid (if node_id a' = p then b' else a')) =
                   filter (\<lambda>x. node_id x \<noteq> p) (collectLeaves b)" by blast
        from pid have "pid \<in> set (node_ids b)" by (simp add: set_node_ids)
        then have "pid \<noteq> i" "pid \<notin> set (node_ids a)" using ni disj by auto
        then show ?thesis using fp pid cl na nb pa
          by (simp add: replaceNode_absent filter_leaves_absent findParent_absent)
      qed
    qed
  qed
qed

lemma distinct_leaf_ids: "distinct (node_ids n) \<Longrightarrow> distinct (leaf_ids n)"
proof (induction n)
  case (PaneLeaf i r f)
  then show ?case by simp
next
  case (PaneSplit i d q a b)
  then have "set (leaf_ids a) \<inter> set (leaf_ids b) = {}"
    by (auto simp: set_node_ids)
  with PaneSplit show ?case by simp
qed

lemma filter_neq_absent: "p \<notin> set xs \<Longrightarrow> filter (\<lambda>x. x \<noteq> p) xs = xs"
  by (induction xs) auto

lemma length_filter_neq:
  "distinct xs \<Longrightarrow> p \<in> set xs \<Longrightarrow> Suc (length (filter (\<lambda>x. x \<noteq> p) xs)) = length xs"
  by (induction xs) (auto simp: filter_neq_absent)

lemma length_filter_leaves:
  assumes "distinct (node_ids n)" and "p \<in> set (leaf_ids n)"
  shows "Suc (length (filter (\<lambda>x. node_id x \<noteq> p) (collectLeaves n))) = length (collectLeaves n)"
proof -
  have "length (filter (\<lambda>x. node_id x \<noteq> p) (collectLeaves n)) =
        length (filter (\<lambda>x. x \<noteq> p) (leaf_ids n))"
    unfolding leaf_ids_def filter_map by (simp add: comp_def)
  moreover have "Suc (length (filter (\<lambda>x. x \<noteq> p) (leaf_ids n))) = length (leaf_ids n)"
    using assms by (intro length_filter_neq distinct_leaf_ids)
  ultimately show ?thesis by (simp add: leaf_ids_def)
qed

lemma closePane_refused: "length (collectLeaves (root (layout s))) \<le> 1 \<Longrightarrow> closePane p s = s"
  by (simp add: closePane_def)

lemma closePane_no_parent: "findParent (root (layout s)) p = None \<Longrightarrow> closePane p s = s"
  by (simp add: closePane_def Let_def)

lemma closePane_root:
  "1 < length (collectLeaves (root (layout s))) \<Longrightarrow>
   findParent (root (layout s)) p = Some (pid, d, q, a, b) \<Longrightarrow>
   root (layout (closePane p s)) = replaceNode (root (layout s)) pid (if node_id a = p then b else a)"
  by (simp add: closePane_def Let_def)

lemma closePane_active_other:
  "activePaneId (layout s) \<noteq> p \<Longrightarrow> activePaneId (layout (closePane p s)) = activePaneId (layout s)"
  by (simp add: closePane_def Let_def split: option.split)

lemma closePane_active_self:
  assumes "1 < length (collectLeaves (root (layout s)))"
    and "findParent (root (layout s)) p = Some (pid, d, q, a, b)"
    and "activePaneId (layout s) = p"
  shows "activePaneId (layout (closePane p s)) =
         (let i = node_id (hd (collectLeaves (root (layout (closePane p s)))))
          in if i = [] then initialPaneId else i)"
proof -
  let ?n = "replaceNode (root (layout s)) pid (if node_id a = p then b else a)"
  have rt: "root (layout (closePane p s)) = ?n"
    using assms(1,2) by (rule closePane_root)
  obtain x xs where c: "collectLeaves ?n = x # xs"
    using collectLeaves_nonempty[of ?n] by (cases "collectLeaves ?n") auto
  have "activePaneId (layout (closePane p s)) = (if node_id x = [] then initialPaneId else node_id x)"
    using assms c by (simp add: closePane_def Let_def)
  then show ?thesis unfolding rt c by (simp add: Let_def)
qed

lemma findParent_child:
  "findParent n t = Some (pid, d, q, a, b) \<Longrightarrow> node_id a = t \<or> node_id b = t"
  by (induction n) (auto split: if_splits option.splits)

lemma closePane_parent_exists:
  assumes "distinct (node_ids (root (layout s)))" and "p \<in> set (leaf_ids (root (layout s)))"
    and "1 < length (collectLeaves (root (layout s)))"
  shows "\<exists>pid d q a b. findParent (root (layout s)) p = Some (pid, d, q, a, b) \<and>
      collectLeaves (replaceNode (root (layout s)) pid (if node_id a = p then b else a)) =
        filter (\<lambda>x. node_id x \<noteq> p) (collectLeaves (root (layout s)))"
  using closePane_core[OF assms] by blast

lemma closePane_leaves:
  assumes "distinct (node_ids (root (layout s)))" and "p \<in> set (leaf_ids (root (layout s)))"
    and "1 < length (collectLeaves (root (layout s)))"
  shows "collectLeaves (root (layout (closePane p s))) =
         filter (\<lambda>x. node_id x \<noteq> p) (collectLeaves (root (layout s)))"
proof -
  from closePane_parent_exists[OF assms]
  obtain pid d q a b where fp: "findParent (root (layout s)) p = Some (pid, d, q, a, b)"
    and cl: "collectLeaves (replaceNode (root (layout s)) pid (if node_id a = p then b else a)) =
        filter (\<lambda>x. node_id x \<noteq> p) (collectLeaves (root (layout s)))" by blast
  show ?thesis unfolding closePane_root[OF assms(3) fp] by (rule cl)
qed

text \<open>
  C3 (as amended). \<open>closePane\<close> is refused when exactly one Leaf exists. In a tree whose
  node ids are pairwise distinct, for a \<open>paneId\<close> that is the id of a Leaf, and with more
  than one Leaf, the Leaf has a parent Split, \<open>closePane\<close> replaces that Split by its
  other child, the leaves of the new tree are the old leaves without the closed one (one
  fewer), and if the closed pane was active the active pane becomes the first Leaf of the
  new tree (\<open>initialPaneId\<close> when that Leaf's id is the empty string).
\<close>

theorem closePane_closes_leaf:
  "(length (collectLeaves (root (layout s))) = 1 \<longrightarrow> closePane p s = s) \<and>
   (distinct (node_ids (root (layout s))) \<and> p \<in> set (leaf_ids (root (layout s))) \<and>
    1 < length (collectLeaves (root (layout s))) \<longrightarrow>
      (\<exists>pid d q a b.
          findParent (root (layout s)) p = Some (pid, d, q, a, b) \<and>
          (node_id a = p \<or> node_id b = p) \<and>
          root (layout (closePane p s)) =
            replaceNode (root (layout s)) pid (if node_id a = p then b else a)) \<and>
      collectLeaves (root (layout (closePane p s))) =
        filter (\<lambda>x. node_id x \<noteq> p) (collectLeaves (root (layout s))) \<and>
      Suc (length (collectLeaves (root (layout (closePane p s))))) =
        length (collectLeaves (root (layout s))) \<and>
      (activePaneId (layout s) = p \<longrightarrow>
         activePaneId (layout (closePane p s)) =
           (let i = node_id (hd (collectLeaves (root (layout (closePane p s)))))
            in if i = [] then initialPaneId else i)))"
proof (intro conjI impI)
  assume "length (collectLeaves (root (layout s))) = 1"
  then show "closePane p s = s" by (intro closePane_refused) simp
next
  assume h: "distinct (node_ids (root (layout s))) \<and> p \<in> set (leaf_ids (root (layout s))) \<and>
    1 < length (collectLeaves (root (layout s)))"
  then have d: "distinct (node_ids (root (layout s)))"
    and pl: "p \<in> set (leaf_ids (root (layout s)))"
    and len: "1 < length (collectLeaves (root (layout s)))" by simp_all
  from closePane_parent_exists[OF d pl len]
  obtain pid d q a b where fp: "findParent (root (layout s)) p = Some (pid, d, q, a, b)" by blast
  show "\<exists>pid d q a b.
          findParent (root (layout s)) p = Some (pid, d, q, a, b) \<and>
          (node_id a = p \<or> node_id b = p) \<and>
          root (layout (closePane p s)) =
            replaceNode (root (layout s)) pid (if node_id a = p then b else a)"
    by (intro exI conjI) (rule fp, rule findParent_child[OF fp], rule closePane_root[OF len fp])
  show c: "collectLeaves (root (layout (closePane p s))) =
        filter (\<lambda>x. node_id x \<noteq> p) (collectLeaves (root (layout s)))"
    using d pl len by (rule closePane_leaves)
  show "Suc (length (collectLeaves (root (layout (closePane p s))))) =
        length (collectLeaves (root (layout s)))"
    unfolding c using d pl by (rule length_filter_leaves)
  assume "activePaneId (layout s) = p"
  with len fp show "activePaneId (layout (closePane p s)) =
           (let i = node_id (hd (collectLeaves (root (layout (closePane p s)))))
            in if i = [] then initialPaneId else i)"
    by (rule closePane_active_self)
qed

text \<open>The theorem at \<open>twoPanes\<close>, closing the active \<open>pane-2\<close>.\<close>

theorem closePane_closes_leaf_witness:
  "distinct (node_ids (root (layout twoPanes))) \<and>
   ''pane-2'' \<in> set (leaf_ids (root (layout twoPanes))) \<and>
   1 < length (collectLeaves (root (layout twoPanes))) \<and>
   activePaneId (layout twoPanes) = ''pane-2'' \<and>
   collectLeaves (root (layout (closePane ''pane-2'' twoPanes))) = [PaneLeaf ''pane-1'' ''root'' None] \<and>
   activePaneId (layout (closePane ''pane-2'' twoPanes)) = ''pane-1''"
proof -
  have h: "distinct (node_ids (root (layout twoPanes))) \<and>
   ''pane-2'' \<in> set (leaf_ids (root (layout twoPanes))) \<and>
   1 < length (collectLeaves (root (layout twoPanes)))"
    by (simp add: twoPanes_def)
  have act: "activePaneId (layout twoPanes) = ''pane-2''"
    by (simp add: twoPanes_def)
  note r = conjunct2[OF closePane_closes_leaf[of twoPanes "''pane-2''"], THEN mp, OF h]
  have c: "collectLeaves (root (layout (closePane ''pane-2'' twoPanes))) =
        filter (\<lambda>x. node_id x \<noteq> ''pane-2'') (collectLeaves (root (layout twoPanes)))"
    using r by (elim conjE)
  have c': "collectLeaves (root (layout (closePane ''pane-2'' twoPanes))) = [PaneLeaf ''pane-1'' ''root'' None]"
    unfolding c by (simp add: twoPanes_def)
  have "activePaneId (layout (closePane ''pane-2'' twoPanes)) =
           (let i = node_id (hd (collectLeaves (root (layout (closePane ''pane-2'' twoPanes)))))
            in if i = [] then initialPaneId else i)"
    using r act by (elim conjE) (erule (1) mp)
  then have "activePaneId (layout (closePane ''pane-2'' twoPanes)) = ''pane-1''"
    unfolding c' by simp
  with h act c' show ?thesis by (elim conjE) (intro conjI)
qed

text \<open>
  C3 as stated fails: closing the Split \<open>split-2\<close>, a node with a parent Split, removes
  two leaves; with two splits of the same id, closing the Leaf \<open>pane-1\<close> removes two
  leaves; and when the first remaining Leaf has the empty id the active pane becomes
  \<open>pane-1\<close>, which is no Leaf of the tree.
\<close>

theorem closePane_split_target_counterexample:
  "(findNode (root (layout nestedPanes)) ''split-2'' =
      Some (PaneSplit ''split-2'' Horizontal (1/2)
              (PaneLeaf ''pane-1'' ''root'' None) (PaneLeaf ''pane-2'' ''root'' None)) \<and>
    findParent (root (layout nestedPanes)) ''split-2'' \<noteq> None \<and>
    length (collectLeaves (root (layout nestedPanes))) = 3 \<and>
    length (collectLeaves (root (layout (closePane ''split-2'' nestedPanes)))) = 1) \<and>
   (findNode (root (layout dupSplitPanes)) ''pane-1'' = Some (PaneLeaf ''pane-1'' ''root'' None) \<and>
    findParent (root (layout dupSplitPanes)) ''pane-1'' \<noteq> None \<and>
    length (collectLeaves (root (layout dupSplitPanes))) = 3 \<and>
    length (collectLeaves (root (layout (closePane ''pane-1'' dupSplitPanes)))) = 1) \<and>
   (activePaneId (layout emptyIdPanes) = ''pane-2'' \<and>
    findParent (root (layout emptyIdPanes)) ''pane-2'' \<noteq> None \<and>
    collectLeaves (root (layout (closePane ''pane-2'' emptyIdPanes))) = [PaneLeaf [] ''root'' None] \<and>
    activePaneId (layout (closePane ''pane-2'' emptyIdPanes)) = ''pane-1'')"
  by (simp add: nestedPanes_def dupSplitPanes_def emptyIdPanes_def closePane_def initialPaneId_def)

lemma replaceNode_keeps_new:
  "findNode n t = Some m \<Longrightarrow> set (leaf_ids x) \<subseteq> set (leaf_ids (replaceNode n t x))"
  by (induction n) (auto split: if_splits option.splits)

lemma leaf_ids_updateRatio: "leaf_ids (updateRatio sid r n) = leaf_ids n"
  by (induction n) auto

lemma leaf_ids_updatePaneRoot: "leaf_ids (updatePaneRoot p rb n) = leaf_ids n"
  by (induction n) auto

lemma layout_inv_iff: "layout_inv l = (activePaneId l \<in> set (leaf_ids (root l)))"
  by (simp add: layout_inv_def collectLeaves_nonempty)

lemma splitPane_inv: "layout_inv (layout s) \<Longrightarrow> layout_inv (layout (splitPane p dir u1 u2 s))"
proof (cases "findNode (root (layout s)) p")
  case None
  assume "layout_inv (layout s)"
  with None show ?thesis by (simp add: splitPane_def)
next
  case (Some m)
  assume inv: "layout_inv (layout s)"
  show ?thesis
  proof (cases m)
    case (PaneSplit i d q a b)
    with Some inv show ?thesis by (simp add: splitPane_def)
  next
    case (PaneLeaf i r f)
    let ?split = "createPaneSplit (''split-'' @ u2) dir (PaneLeaf i r f) (createPaneLeaf (''pane-'' @ u1) r) (1/2)"
    have "''pane-'' @ u1 \<in> set (leaf_ids ?split)"
      by (simp add: createPaneSplit_def createPaneLeaf_def)
    with replaceNode_keeps_new[OF Some, of ?split]
    have "''pane-'' @ u1 \<in> set (leaf_ids (replaceNode (root (layout s)) p ?split))" by blast
    with Some PaneLeaf show ?thesis
      by (simp add: splitPane_def Let_def layout_inv_iff)
  qed
qed

lemma closePane_inv:
  assumes inv: "layout_inv (layout s)"
    and d: "distinct (node_ids (root (layout s)))"
    and ns: "p \<notin> set (split_ids (root (layout s)))"
    and ne: "[] \<notin> set (leaf_ids (root (layout s)))"
  shows "layout_inv (layout (closePane p s))"
proof (cases "length (collectLeaves (root (layout s))) \<le> 1")
  case True
  then have "closePane p s = s" by (rule closePane_refused)
  with inv show ?thesis by simp
next
  case False
  then have len: "1 < length (collectLeaves (root (layout s)))" by simp
  show ?thesis
  proof (cases "findParent (root (layout s)) p")
    case None
    then have "closePane p s = s" by (rule closePane_no_parent)
    with inv show ?thesis by simp
  next
    case (Some par)
    obtain pid dd q a b where par: "par = (pid, dd, q, a, b)" by (cases par) auto
    have fp: "findParent (root (layout s)) p = Some (pid, dd, q, a, b)" using Some par by simp
    have "p \<in> set (node_ids (root (layout s)))"
    proof (rule ccontr)
      assume "p \<notin> set (node_ids (root (layout s)))"
      then have "findParent (root (layout s)) p = None" by (rule findParent_absent)
      with fp show False by simp
    qed
    with ns have pl: "p \<in> set (leaf_ids (root (layout s)))" by (simp add: set_node_ids)
    let ?r' = "root (layout (closePane p s))"
    have c: "collectLeaves ?r' = filter (\<lambda>x. node_id x \<noteq> p) (collectLeaves (root (layout s)))"
      using d pl len by (rule closePane_leaves)
    have sub: "set (leaf_ids ?r') \<subseteq> set (leaf_ids (root (layout s)))"
      by (simp add: leaf_ids_def c image_mono)
    have keep: "x \<in> set (leaf_ids ?r')" if "x \<in> set (leaf_ids (root (layout s)))" "x \<noteq> p" for x
    proof -
      from that(1) obtain n where n: "n \<in> set (collectLeaves (root (layout s)))" "x = node_id n"
        unfolding leaf_ids_def by auto
      with that(2) have "n \<in> set (filter (\<lambda>x. node_id x \<noteq> p) (collectLeaves (root (layout s))))"
        by simp
      then show ?thesis unfolding leaf_ids_def c using n(2) by (simp only: set_map image_eqI)
    qed
    show ?thesis
    proof (cases "activePaneId (layout s) = p")
      case False
      then have e: "activePaneId (layout (closePane p s)) = activePaneId (layout s)"
        by (rule closePane_active_other)
      have "activePaneId (layout s) \<in> set (leaf_ids (root (layout s)))"
        using inv by (simp only: layout_inv_iff)
      then have "activePaneId (layout s) \<in> set (leaf_ids ?r')" using False by (rule keep)
      then show ?thesis unfolding layout_inv_iff e .
    next
      case True
      have "collectLeaves ?r' \<noteq> []" by (rule collectLeaves_nonempty)
      then have h: "node_id (hd (collectLeaves ?r')) \<in> set (leaf_ids ?r')"
        by (simp add: leaf_ids_def)
      then have "node_id (hd (collectLeaves ?r')) \<in> set (leaf_ids (root (layout s)))"
        using sub by (rule set_mp[rotated])
      with ne have n: "node_id (hd (collectLeaves ?r')) \<noteq> []" by (rule_tac notI) simp
      have "activePaneId (layout (closePane p s)) =
            (let i = node_id (hd (collectLeaves ?r')) in if i = [] then initialPaneId else i)"
        using len fp True by (rule closePane_active_self)
      with n have e: "activePaneId (layout (closePane p s)) = node_id (hd (collectLeaves ?r'))"
        by (simp add: Let_def)
      show ?thesis unfolding layout_inv_iff e by (rule h)
    qed
  qed
qed

text \<open>
  C4 (as amended). From a layout satisfying the invariant, \<open>splitPane\<close>, \<open>setRatio\<close>
  and \<open>setPaneRoot\<close> keep the invariant; \<open>setActivePane(paneId)\<close> keeps it when
  \<open>paneId\<close> is the id of a Leaf of the tree; \<open>closePane(paneId)\<close> keeps it when the
  node ids are pairwise distinct, \<open>paneId\<close> is not the id of a Split and no Leaf has
  the empty id.
\<close>

theorem layout_inv_preserved:
  "layout_inv (layout s) \<Longrightarrow>
   layout_inv (layout (splitPane p dir u1 u2 s)) \<and>
   layout_inv (layout (setRatio sid r s)) \<and>
   layout_inv (layout (setPaneRoot p rb s)) \<and>
   (p \<in> set (leaf_ids (root (layout s))) \<longrightarrow> layout_inv (layout (setActivePane p s))) \<and>
   (distinct (node_ids (root (layout s))) \<and> p \<notin> set (split_ids (root (layout s))) \<and>
    [] \<notin> set (leaf_ids (root (layout s))) \<longrightarrow> layout_inv (layout (closePane p s)))"
  by (simp add: splitPane_inv closePane_inv)
     (simp add: layout_inv_iff setRatio_def setPaneRoot_def setActivePane_def
        leaf_ids_updateRatio leaf_ids_updatePaneRoot)

text \<open>
  C4 as stated fails: \<open>setActivePane\<close> stores any id, and \<open>closePane\<close> on the id of a
  Split removes the active Leaf with it.
\<close>

theorem layout_inv_counterexample:
  "layout_inv (layout initialStore) \<and>
   \<not> layout_inv (layout (setActivePane ''ghost'' initialStore)) \<and>
   layout_inv (layout nestedPanes) \<and>
   \<not> layout_inv (layout (closePane ''split-2'' nestedPanes))"
  by (simp add: layout_inv_iff initialStore_def initialLayout_def initialPaneId_def
        createPaneLeaf_def setActivePane_def nestedPanes_def closePane_def)

text \<open>The theorem at \<open>twoPanes\<close> and \<open>pane-2\<close>.\<close>

theorem layout_inv_preserved_witness:
  "layout_inv (layout twoPanes) \<and>
   ''pane-2'' \<in> set (leaf_ids (root (layout twoPanes))) \<and>
   distinct (node_ids (root (layout twoPanes))) \<and>
   ''pane-2'' \<notin> set (split_ids (root (layout twoPanes))) \<and>
   [] \<notin> set (leaf_ids (root (layout twoPanes))) \<and>
   layout_inv (layout (splitPane ''pane-2'' Horizontal ''0a1b2c3d'' ''4e5f6a7b'' twoPanes)) \<and>
   layout_inv (layout (setRatio ''split-1'' (3/4) twoPanes)) \<and>
   layout_inv (layout (setPaneRoot ''pane-2'' ''b1'' twoPanes)) \<and>
   layout_inv (layout (setActivePane ''pane-2'' twoPanes)) \<and>
   layout_inv (layout (closePane ''pane-2'' twoPanes))"
proof -
  have h: "layout_inv (layout twoPanes)"
    by (simp add: layout_inv_iff twoPanes_def)
  have g: "''pane-2'' \<in> set (leaf_ids (root (layout twoPanes))) \<and>
   distinct (node_ids (root (layout twoPanes))) \<and>
   ''pane-2'' \<notin> set (split_ids (root (layout twoPanes))) \<and>
   [] \<notin> set (leaf_ids (root (layout twoPanes)))"
    by (simp add: twoPanes_def)
  note r = layout_inv_preserved[OF h, of "''pane-2''" Horizontal "''0a1b2c3d''" "''4e5f6a7b''" "''split-1''" "3/4" "''b1''"]
  have g1: "''pane-2'' \<in> set (leaf_ids (root (layout twoPanes)))" using g by (elim conjE)
  have g2: "distinct (node_ids (root (layout twoPanes))) \<and>
   ''pane-2'' \<notin> set (split_ids (root (layout twoPanes))) \<and>
   [] \<notin> set (leaf_ids (root (layout twoPanes)))" using g by (elim conjE) (intro conjI)
  have "layout_inv (layout (setActivePane ''pane-2'' twoPanes))"
    using r g1 by (elim conjE) (erule (1) mp)
  moreover have "layout_inv (layout (closePane ''pane-2'' twoPanes))"
    using r g2 by (elim conjE) (erule mp, intro conjI)
  moreover have "layout_inv (layout (splitPane ''pane-2'' Horizontal ''0a1b2c3d'' ''4e5f6a7b'' twoPanes)) \<and>
   layout_inv (layout (setRatio ''split-1'' (3/4) twoPanes)) \<and>
   layout_inv (layout (setPaneRoot ''pane-2'' ''b1'' twoPanes))"
    using r by (elim conjE) (intro conjI)
  ultimately show ?thesis using h g by (elim conjE) (intro conjI)
qed

lemma closePane_overlay: "collapsedBlocks (closePane p s) = collapsedBlocks s"
  by (simp add: closePane_def Let_def split: option.splits prod.splits)

lemma splitPane_overlay: "collapsedBlocks (splitPane p dir u1 u2 s) = collapsedBlocks s"
  by (simp add: splitPane_def Let_def split: option.splits pane_node.splits)

text \<open>
  C7 (as amended). No operation of the pane store removes a pane's overlay entry:
  \<open>closePane\<close>, \<open>splitPane\<close>, \<open>setActivePane\<close>, \<open>setRatio\<close> and \<open>setPaneRoot\<close>
  leave \<open>collapsedBlocks\<close> unchanged, and \<open>toggleCollapsed(paneId, blockId)\<close> leaves
  an entry for \<open>paneId\<close> and does not touch the entry of any other pane.
\<close>

theorem overlay_never_removed:
  "collapsedBlocks (closePane p s) = collapsedBlocks s \<and>
   collapsedBlocks (splitPane p dir u1 u2 s) = collapsedBlocks s \<and>
   collapsedBlocks (setActivePane p s) = collapsedBlocks s \<and>
   collapsedBlocks (setRatio sid r s) = collapsedBlocks s \<and>
   collapsedBlocks (setPaneRoot p rb s) = collapsedBlocks s \<and>
   collapsedBlocks (toggleCollapsed p b s) p \<noteq> None \<and>
   (q \<noteq> p \<longrightarrow> collapsedBlocks (toggleCollapsed p b s) q = collapsedBlocks s q)"
  by (simp add: closePane_overlay splitPane_overlay)
     (simp add: setActivePane_def setRatio_def setPaneRoot_def toggleCollapsed_def Let_def)

text \<open>The theorem at \<open>twoPanes\<close>.\<close>

theorem overlay_never_removed_witness:
  "''pane-1'' \<noteq> ''pane-2'' \<and>
   collapsedBlocks (closePane ''pane-2'' twoPanes) = collapsedBlocks twoPanes \<and>
   collapsedBlocks (toggleCollapsed ''pane-2'' ''b1'' twoPanes) ''pane-2'' = Some {} \<and>
   collapsedBlocks (toggleCollapsed ''pane-2'' ''b1'' twoPanes) ''pane-1'' = collapsedBlocks twoPanes ''pane-1''"
proof -
  have n: "''pane-1'' \<noteq> ''pane-2''" by simp
  from overlay_never_removed[of "''pane-2''" twoPanes Horizontal "''a''" "''b''" "''split-1''" "1/2" "''b1''" "''b1''" "''pane-1''"] n
  have "collapsedBlocks (closePane ''pane-2'' twoPanes) = collapsedBlocks twoPanes"
    and "collapsedBlocks (toggleCollapsed ''pane-2'' ''b1'' twoPanes) ''pane-1'' = collapsedBlocks twoPanes ''pane-1''"
    by blast+
  moreover have "collapsedBlocks (toggleCollapsed ''pane-2'' ''b1'' twoPanes) ''pane-2'' = Some {}"
    by (simp add: toggleCollapsed_def twoPanes_def)
  ultimately show ?thesis using n by simp
qed

text \<open>
  C7 as stated fails: closing \<open>pane-2\<close> (the tree becomes the single Leaf \<open>pane-1\<close>)
  leaves the overlay entry of \<open>pane-2\<close> in place.
\<close>

theorem closePane_overlay_counterexample:
  "root (layout (closePane ''pane-2'' twoPanes)) = PaneLeaf ''pane-1'' ''root'' None \<and>
   collapsedBlocks (closePane ''pane-2'' twoPanes) ''pane-2'' = Some {''b1''}"
  by (simp add: twoPanes_def closePane_def)


section \<open>Theorems: executor and bridge\<close>

lemma replaceUnits_new: "to \<notin> from \<Longrightarrow> set (replaceUnits from to s) \<inter> from = {}"
  by (auto simp: replaceUnits_def)

lemma replaceUnits_old:
  "set s \<inter> A = {} \<Longrightarrow> to \<notin> A \<Longrightarrow> set (replaceUnits from to s) \<inter> A = {}"
  by (auto simp: replaceUnits_def)

lemma disjoint_notin: "x \<in> S \<Longrightarrow> S \<inter> A = {} \<Longrightarrow> x \<notin> A"
  by auto

lemma normalizeQuotes_clean: "c \<in> set (normalizeQuotes s) \<Longrightarrow> c \<notin> smartUnits"
proof -
  assume c: "c \<in> set (normalizeQuotes s)"
  let ?a = "replaceUnits {8220, 8221} 34 s"
  let ?b = "replaceUnits {8216, 8217} 39 ?a"
  let ?c = "replaceUnits {8211, 8212} 45 ?b"
  have a1: "set ?a \<inter> {8220, 8221} = {}" by (rule replaceUnits_new) simp
  have b1: "set ?b \<inter> {8220, 8221} = {}" using a1 by (rule replaceUnits_old) simp
  have b2: "set ?b \<inter> {8216, 8217} = {}" by (rule replaceUnits_new) simp
  have c1: "set ?c \<inter> {8220, 8221} = {}" using b1 by (rule replaceUnits_old) simp
  have c2: "set ?c \<inter> {8216, 8217} = {}" using b2 by (rule replaceUnits_old) simp
  have c3: "set ?c \<inter> {8211, 8212} = {}" by (rule replaceUnits_new) simp
  have m: "c \<in> set ?c" using c by (simp only: normalizeQuotes_def)
  have "c \<notin> {8220, 8221}" "c \<notin> {8216, 8217}" "c \<notin> {8211, 8212}"
    using m c1 apply (rule disjoint_notin)
    using m c2 apply (rule disjoint_notin)
    using m c3 apply (rule disjoint_notin)
    done
  then show ?thesis unfolding smartUnits_def by (simp only: Un_iff de_Morgan_disj simp_thms)
qed

lemma normalizeQuotes_straight: "normalizeQuotes s = map straightUnit s"
  by (simp add: normalizeQuotes_def replaceUnits_def straightUnit_def)

lemma extractShellCommand_Some:
  "extractShellCommand txt = Some cmd \<Longrightarrow>
     parseBlockType txt = TySh \<and>
     (cmd = normalizeQuotes (trim (drop 4 (trim txt))) \<or>
      cmd = normalizeQuotes (trim (drop 6 (trim txt))))"
  by (auto simp: extractShellCommand_def parseBlockType_def Let_def split: if_splits)

lemma lit_simps:
  "lit ''sh::'' = [115, 104, 58, 58]"
  "lit ''sh:: ls '' = [115, 104, 58, 58, 32, 108, 115, 32]"
  "lit ''la'' = [108, 97]"
  "lit ''ls -la'' = [108, 115, 32, 45, 108, 97]"
  by (simp_all add: lit_def)

lemma isTrimmable_simps:
  "isTrimmable 32" "\<not> isTrimmable 115" "\<not> isTrimmable 108" "\<not> isTrimmable 97"
  by (simp_all add: isTrimmable_def)

lemma lowerUnit_simps:
  "lowerUnit 115 = [115]" "lowerUnit 104 = [104]" "lowerUnit 58 = [58]" "lowerUnit 32 = [32]"
  "lowerUnit 108 = [108]" "lowerUnit 97 = [97]" "lowerUnit 8211 = [8211]" "lowerUnit 8212 = [8212]"
  by (simp_all add: lowerUnit_def)

lemma trim_ls: "trim (lsContent d) = lsContent d"
  by (simp add: trim_def lsContent_def lit_simps isTrimmable_simps)

lemma lower_ls: "d = 8211 \<or> d = 8212 \<Longrightarrow> startsWith (toLowerCase (lsContent d)) (lit ''sh::'')"
  by (auto simp: lsContent_def lit_simps toLowerCase_def lowerUnit_simps startsWith_def)

lemma trim_ls_command:
  "d = 8211 \<or> d = 8212 \<Longrightarrow> trim (drop 4 (lsContent d)) = [108, 115, 32, d, 108, 97]"
  by (auto simp: trim_def lsContent_def lit_simps isTrimmable_simps)

lemma normalize_ls:
  "d = 8211 \<or> d = 8212 \<Longrightarrow> normalizeQuotes [108, 115, 32, d, 108, 97] = lit ''ls -la''"
  by (auto simp: normalizeQuotes_def replaceUnits_def lit_simps)

lemma extract_ls:
  "d = 8211 \<or> d = 8212 \<Longrightarrow> extractShellCommand (lsContent d) = Some (lit ''ls -la'')"
  by (simp add: extractShellCommand_def trim_ls lower_ls trim_ls_command normalize_ls)

lemma parse_ls: "d = 8211 \<or> d = 8212 \<Longrightarrow> parseBlockType (lsContent d) = TySh"
  by (simp add: parseBlockType_def trim_ls lower_ls)

text \<open>
  C9. Whatever \<open>extractShellCommand\<close> returns for dispatch comes from shell-type content:
  it is the trimmed text after the \<open>sh::\<close> or \<open>term::\<close> prefix with every smart quote
  and every en or em dash replaced by its straight equivalent, so none of them is left.
  On \<open>sh:: ls \<close> followed by an en dash (U+2013, the character of the scenario) or an em
  dash (U+2014) and \<open>la\<close> it returns \<open>ls -la\<close>, and \<open>parseBlockType\<close> of that content is
  the shell type.
\<close>

theorem extractShellCommand_normalized:
  "(extractShellCommand txt = Some cmd \<longrightarrow>
      parseBlockType txt = TySh \<and>
      (cmd = map straightUnit (trim (drop 4 (trim txt))) \<or>
       cmd = map straightUnit (trim (drop 6 (trim txt)))) \<and>
      (\<forall>c \<in> set cmd. c \<notin> smartUnits)) \<and>
   extractShellCommand (lsContent 8211) = Some (lit ''ls -la'') \<and>
   extractShellCommand (lsContent 8212) = Some (lit ''ls -la'') \<and>
   parseBlockType (lsContent 8211) = TySh \<and>
   parseBlockType (lsContent 8212) = TySh"
proof (intro conjI impI ballI)
  assume e: "extractShellCommand txt = Some cmd"
  note r = extractShellCommand_Some[OF e]
  show "parseBlockType txt = TySh" using r by (elim conjE)
  show "cmd = map straightUnit (trim (drop 4 (trim txt))) \<or>
        cmd = map straightUnit (trim (drop 6 (trim txt)))"
    using r unfolding normalizeQuotes_straight by (elim conjE)
  fix c assume c: "c \<in> set cmd"
  from r have "cmd = normalizeQuotes (trim (drop 4 (trim txt))) \<or>
      cmd = normalizeQuotes (trim (drop 6 (trim txt)))" by (elim conjE)
  then show "c \<notin> smartUnits"
  proof
    assume "cmd = normalizeQuotes (trim (drop 4 (trim txt)))"
    with c show ?thesis by (simp only: normalizeQuotes_clean not_False_eq_True)
  next
    assume "cmd = normalizeQuotes (trim (drop 6 (trim txt)))"
    with c show ?thesis by (simp only: normalizeQuotes_clean not_False_eq_True)
  qed
qed (simp_all add: extract_ls parse_ls)

text \<open>The theorem at the scenario's content.\<close>

theorem extractShellCommand_normalized_witness:
  "extractShellCommand (lsContent 8211) = Some (lit ''ls -la'') \<and>
   parseBlockType (lsContent 8211) = TySh \<and>
   8211 \<notin> set (lit ''ls -la'') \<and> 45 \<in> set (lit ''ls -la'')"
proof -
  note r = extractShellCommand_normalized[of "lsContent 8211" "lit ''ls -la''"]
  have e: "extractShellCommand (lsContent 8211) = Some (lit ''ls -la'')"
    using r by (elim conjE)
  have p: "parseBlockType (lsContent 8211) = TySh"
    using r e by (elim conjE) (erule impE, assumption, elim conjE, assumption)
  have "\<forall>c \<in> set (lit ''ls -la''). c \<notin> smartUnits"
    using r e by (elim conjE) (erule impE, assumption, elim conjE, assumption)
  moreover have "8211 \<in> smartUnits" by (simp add: smartUnits_def)
  ultimately have n: "8211 \<notin> set (lit ''ls -la'')" by (rule_tac notI) (drule (1) bspec, erule (1) notE)
  have "45 \<in> set (lit ''ls -la'')" by (simp add: lit_simps)
  with e p n show ?thesis by (intro conjI)
qed

text \<open>
  C2, on the code: the update that \<open>executeShellBlock\<close> applies reaches the handler with
  no remote origin and with \<open>isApplyingRemote\<close> false, so a push is scheduled, whereas
  the initial load and the reload schedule none; the handler itself never schedules a
  push for a remote origin or while the flag is set.
\<close>

theorem executeShellBlock_schedules_push:
  "syncTimer (executeShellBlock idleBridge) = Some 1 \<and>
   syncTimer (loadInitialState idleBridge) = None \<and>
   syncTimer (reloadFromState idleBridge) = None \<and>
   updateHandler RemoteOrigin b = b \<and>
   updateHandler org (b\<lparr>isApplyingRemote := True\<rparr>) = b\<lparr>isApplyingRemote := True\<rparr> \<and>
   syncTimer (updateHandler OtherOrigin (b\<lparr>isApplyingRemote := False\<rparr>)) = Some (Suc (timerCount b))"
  by (simp add: executeShellBlock_def loadInitialState_def reloadFromState_def applyUpdate_def
      updateHandler_def debouncedSync_def idleBridge_def)


section \<open>Lemmas: arrays\<close>


lemma indexOf_ge: "- 1 \<le> indexOf xs x"
  by (induction xs) (auto simp: Let_def)

lemma indexOf_neg_iff: "(indexOf xs x < 0) = (x \<notin> set xs)"
  by (induction xs) (auto simp: Let_def)

lemma indexOf_absent: "x \<notin> set xs \<Longrightarrow> indexOf xs x = - 1"
  by (induction xs) (auto simp: Let_def)

lemma indexOf_first: "x \<notin> set pre \<Longrightarrow> indexOf (pre @ x # post) x = int (length pre)"
  by (induction pre) (auto simp: Let_def)

lemma indexOf_split:
  assumes "x \<in> set xs"
  obtains pre post where "xs = pre @ x # post" "x \<notin> set pre" "indexOf xs x = int (length pre)"
proof -
  from split_list_first[OF assms] obtain pre post where a: "xs = pre @ x # post"
    and b: "x \<notin> set pre" by blast
  have "indexOf (pre @ x # post) x = int (length pre)" using b by (rule indexOf_first)
  then have "indexOf xs x = int (length pre)" by (simp only: a[symmetric])
  with a b show ?thesis by (rule that)
qed

lemma removeRoot_remove1: "removeRoot i arr = remove1 i arr"
proof (cases "i \<in> set arr")
  case False
  then show ?thesis
    by (simp add: removeRoot_def Let_def indexOf_absent remove1_idem)
next
  case True
  then obtain pre post where "arr = pre @ i # post" "i \<notin> set pre" "indexOf arr i = int (length pre)"
    by (rule indexOf_split)
  then show ?thesis
    by (simp add: removeRoot_def Let_def deleteAt_def remove1_append)
qed

lemma insertAt_decomp: "\<exists>a b. xs = a @ b \<and> insertAt n ys xs = a @ ys @ b"
  by (rule exI[of _ "take n xs"], rule exI[of _ "drop n xs"]) (simp add: insertAt_def)

lemma set_insertAt: "set (insertAt n ys xs) = set ys \<union> set xs"
proof -
  obtain a b where "xs = a @ b" "insertAt n ys xs = a @ ys @ b"
    using insertAt_decomp by blast
  then show ?thesis by auto
qed

lemma distinct_insertAt1: "distinct (insertAt n [y] xs) = (y \<notin> set xs \<and> distinct xs)"
proof -
  obtain a b where "xs = a @ b" "insertAt n [y] xs = a @ [y] @ b"
    using insertAt_decomp by blast
  then show ?thesis by auto
qed

lemma filter_neq_distinct: "distinct xs \<Longrightarrow> filter (\<lambda>c. c \<noteq> i) xs = remove1 i xs"
  by (induction xs) (auto simp: filter_id_conv)

lemma swapAt_set: "i < length xs \<Longrightarrow> j < length xs \<Longrightarrow> set (swapAt i j xs) = set xs"
  by (simp add: swapAt_def set_swap)

lemma swapAt_distinct: "i < length xs \<Longrightarrow> j < length xs \<Longrightarrow> distinct (swapAt i j xs) = distinct xs"
  by (simp add: swapAt_def)

lemma swapAt_decomp: "swapAt (length a) (Suc (length a)) (a @ x # y # b) = a @ y # x # b"
  by (simp add: swapAt_def list_update_append nth_append)

lemma splice_decomp:
  "insertAt (length a) [u, v] (deleteAt (length a) 2 (a @ x # y # b)) = a @ u # v # b"
  by (simp add: insertAt_def deleteAt_def)

lemma two_decomp:
  assumes "Suc k < length xs"
  shows "\<exists>a b. xs = a @ xs ! k # xs ! Suc k # b \<and> length a = k"
  by (rule exI[of _ "take k xs"], rule exI[of _ "drop (Suc (Suc k)) xs"])
     (use assms in \<open>simp add: Cons_nth_drop_Suc\<close>)

lemma swap_by_splice:
  assumes "Suc k < length xs"
  shows "insertAt k [xs ! Suc k, xs ! k] (deleteAt k 2 xs) = swapAt k (Suc k) xs"
proof -
  from two_decomp[OF assms] obtain a b where xs: "xs = a @ xs ! k # xs ! Suc k # b"
    and k: "length a = k" by blast
  have "insertAt (length a) [xs ! Suc k, xs ! k] (deleteAt (length a) 2 (a @ xs ! k # xs ! Suc k # b)) =
        swapAt (length a) (Suc (length a)) (a @ xs ! k # xs ! Suc k # b)"
    by (simp only: swapAt_decomp splice_decomp)
  then show ?thesis unfolding k by (simp only: xs[symmetric])
qed


section \<open>Lemmas: document entries and the invariant\<close>


lemma setValueOnYMap_apply:
  "setValueOnYMap i f m j = (if j = i then map_option f (m i) else m j)"
  by (cases "m i") (simp_all add: setValueOnYMap_def)

lemma childIdsOf_setChildIds:
  "childIdsOf (setChildIds i cs m) j = (if j = i \<and> m i \<noteq> None then cs else childIdsOf m j)"
  by (cases "m i") (simp_all add: childIdsOf_def setChildIds_def setValueOnYMap_apply)

lemma childIdsOf_setParentId: "childIdsOf (setParentId i p m) j = childIdsOf m j"
  by (cases "m i") (simp_all add: childIdsOf_def setParentId_def setValueOnYMap_apply)

lemma childIdsOf_setCollapsed: "childIdsOf (setCollapsed i c m) j = childIdsOf m j"
  by (cases "m i") (simp_all add: childIdsOf_def setCollapsed_def setValueOnYMap_apply)

lemma childIdsOf_setUpdatedAt: "childIdsOf (setUpdatedAt i t m) j = childIdsOf m j"
  by (cases "m i") (simp_all add: childIdsOf_def setUpdatedAt_def setValueOnYMap_apply)

lemma childIdsOf_upd: "childIdsOf (m(i \<mapsto> b)) j = (if j = i then childIds b else childIdsOf m j)"
  by (simp add: childIdsOf_def)

lemma childIdsOf_del: "childIdsOf (m(i := None)) j = (if j = i then [] else childIdsOf m j)"
  by (simp add: childIdsOf_def)

lemma parentOf_setParentId:
  "parentOf (setParentId i p m) j = (if j = i \<and> m i \<noteq> None then Some p else parentOf m j)"
  by (cases "m i") (simp_all add: parentOf_def setParentId_def setValueOnYMap_apply)

lemma parentOf_setChildIds: "parentOf (setChildIds i cs m) j = parentOf m j"
  by (cases "m i") (simp_all add: parentOf_def setChildIds_def setValueOnYMap_apply)

lemma parentOf_setCollapsed: "parentOf (setCollapsed i c m) j = parentOf m j"
  by (cases "m i") (simp_all add: parentOf_def setCollapsed_def setValueOnYMap_apply)

lemma parentOf_setUpdatedAt: "parentOf (setUpdatedAt i t m) j = parentOf m j"
  by (cases "m i") (simp_all add: parentOf_def setUpdatedAt_def setValueOnYMap_apply)

lemma parentOf_upd: "parentOf (m(i \<mapsto> b)) j = (if j = i then Some (parentId b) else parentOf m j)"
  by (simp add: parentOf_def)

lemma parentOf_del: "parentOf (m(i := None)) j = (if j = i then None else parentOf m j)"
  by (simp add: parentOf_def)

lemma idOf_setChildIds: "idOf (setChildIds i cs m) j = idOf m j"
  by (cases "m i") (simp_all add: idOf_def setChildIds_def setValueOnYMap_apply)

lemma idOf_setParentId: "idOf (setParentId i p m) j = idOf m j"
  by (cases "m i") (simp_all add: idOf_def setParentId_def setValueOnYMap_apply)

lemma idOf_setCollapsed: "idOf (setCollapsed i c m) j = idOf m j"
  by (cases "m i") (simp_all add: idOf_def setCollapsed_def setValueOnYMap_apply)

lemma idOf_setUpdatedAt: "idOf (setUpdatedAt i t m) j = idOf m j"
  by (cases "m i") (simp_all add: idOf_def setUpdatedAt_def setValueOnYMap_apply)

lemma idOf_upd: "idOf (m(i \<mapsto> b)) j = (if j = i then Some (block_id b) else idOf m j)"
  by (simp add: idOf_def)

lemma idOf_del: "idOf (m(i := None)) j = (if j = i then None else idOf m j)"
  by (simp add: idOf_def)

lemmas obs_simps =
  childIdsOf_setChildIds childIdsOf_setParentId childIdsOf_setCollapsed childIdsOf_setUpdatedAt
  childIdsOf_upd childIdsOf_del
  parentOf_setParentId parentOf_setChildIds parentOf_setCollapsed parentOf_setUpdatedAt
  parentOf_upd parentOf_del
  idOf_setChildIds idOf_setParentId idOf_setCollapsed idOf_setUpdatedAt idOf_upd idOf_del

lemma live_setters:
  "(setChildIds i cs m j = None) = (m j = None)"
  "(setParentId i p m j = None) = (m j = None)"
  "(setCollapsed i c m j = None) = (m j = None)"
  "(setUpdatedAt i t m j = None) = (m j = None)"
  by (simp_all add: setChildIds_def setParentId_def setCollapsed_def setUpdatedAt_def
      setValueOnYMap_apply)

text \<open>The invariant in terms of the three observations.\<close>

lemma keyed_idOf: "keyed s = (\<forall>i x. idOf (blocks s) i = Some x \<longrightarrow> x = i \<and> i \<noteq> [])"
  by (auto simp: keyed_def idOf_def)

lemma parentOf_None: "(parentOf m c = None) = (m c = None)"
  by (simp add: parentOf_def)

lemma idOf_None: "(idOf m c = None) = (m c = None)"
  by (simp add: idOf_def)

lemma parentOf_Some: "(parentOf m c = Some P) = (\<exists>b. m c = Some b \<and> parentId b = P)"
  by (cases "m c") (auto simp: parentOf_def)

lemma refs_simps: "refs s None = rootIds s" "refs s (Some p) = childIdsOf (blocks s) p"
  by (simp_all add: refs_def)

lemma tree_okI:
  assumes "\<And>i x. idOf (blocks s) i = Some x \<Longrightarrow> x = i \<and> i \<noteq> []"
    and "distinct (rootIds s)"
    and "\<And>p. distinct (childIdsOf (blocks s) p)"
    and "\<And>c. (c \<in> set (rootIds s)) = (parentOf (blocks s) c = Some None)"
    and "\<And>p c. (c \<in> set (childIdsOf (blocks s) p)) = (parentOf (blocks s) c = Some (Some p))"
  shows "tree_ok s"
  unfolding tree_ok_def keyed_idOf
proof (intro conjI allI impI)
  fix P show "distinct (refs s P)" using assms(2,3) by (cases P) (simp_all add: refs_simps)
next
  fix P c show "(c \<in> set (refs s P)) = (parentOf (blocks s) c = Some P)"
    using assms(4,5) by (cases P) (simp_all add: refs_simps)
qed (use assms(1) in blast)+

lemma tree_okD:
  assumes "tree_ok s"
  shows "idOf (blocks s) i = Some x \<Longrightarrow> x = i \<and> i \<noteq> []"
    and "distinct (rootIds s)"
    and "distinct (childIdsOf (blocks s) p)"
    and "(c \<in> set (rootIds s)) = (parentOf (blocks s) c = Some None)"
    and "(c \<in> set (childIdsOf (blocks s) p)) = (parentOf (blocks s) c = Some (Some p))"
proof -
  from assms have k: "\<forall>i x. idOf (blocks s) i = Some x \<longrightarrow> x = i \<and> i \<noteq> []"
    and d: "\<forall>P. distinct (refs s P)"
    and m: "\<forall>P c. (c \<in> set (refs s P)) = (parentOf (blocks s) c = Some P)"
    unfolding tree_ok_def keyed_idOf by blast+
  show "idOf (blocks s) i = Some x \<Longrightarrow> x = i \<and> i \<noteq> []" using k by blast
  show "distinct (rootIds s)" using d[rule_format, of None] by (simp add: refs_simps)
  show "distinct (childIdsOf (blocks s) p)" using d[rule_format, of "Some p"] by (simp add: refs_simps)
  show "(c \<in> set (rootIds s)) = (parentOf (blocks s) c = Some None)"
    using m[rule_format, of c None] by (simp add: refs_simps)
  show "(c \<in> set (childIdsOf (blocks s) p)) = (parentOf (blocks s) c = Some (Some p))"
    using m[rule_format, of c "Some p"] by (simp add: refs_simps)
qed



lemma indexOf_nth:
  assumes "x \<in> set xs"
  shows "0 \<le> indexOf xs x" and "nat (indexOf xs x) < length xs" and "xs ! nat (indexOf xs x) = x"
proof -
  from assms obtain pre post where a: "xs = pre @ x # post" and c: "indexOf xs x = int (length pre)"
    by (rule indexOf_split)
  show "0 \<le> indexOf xs x" unfolding c by simp
  have l: "length xs = length pre + Suc (length post)" by (subst a) simp
  show "nat (indexOf xs x) < length xs" unfolding c l by simp
  have "(pre @ x # post) ! length pre = x" by simp
  then have "xs ! length pre = x" by (simp only: a[symmetric])
  then show "xs ! nat (indexOf xs x) = x" unfolding c by simp
qed

lemma tree_inv_iff_tree_ok: "tree_inv s = tree_ok s"
proof
  assume inv: "tree_inv s"
  then have k: "keyed s" and nd: "no_duplicates s" and dg: "no_dangling s" and pr: "parent_or_root s"
    by (simp_all add: tree_inv_def)
  have "(c \<in> set (refs s P)) = (parentOf (blocks s) c = Some P)" for P c
  proof
    assume c: "c \<in> set (refs s P)"
    with dg obtain b where b: "blocks s c = Some b" unfolding no_dangling_def by blast
    with pr have "c \<in> set (refs s (parentId b))" unfolding parent_or_root_def by blast
    with c nd have "parentId b = P" unfolding no_duplicates_def by blast
    with b show "parentOf (blocks s) c = Some P" by (simp add: parentOf_def)
  next
    assume "parentOf (blocks s) c = Some P"
    then obtain b where "blocks s c = Some b" "parentId b = P" unfolding parentOf_Some by blast
    with pr show "c \<in> set (refs s P)" unfolding parent_or_root_def by blast
  qed
  with k nd show "tree_ok s" unfolding tree_ok_def no_duplicates_def by blast
next
  assume ok: "tree_ok s"
  then have k: "keyed s" and d: "\<And>P. distinct (refs s P)"
    and m: "\<And>P c. (c \<in> set (refs s P)) = (parentOf (blocks s) c = Some P)"
    unfolding tree_ok_def by blast+
  have "no_duplicates s" unfolding no_duplicates_def using d m by auto
  moreover have "no_dangling s" unfolding no_dangling_def using m by (auto simp: parentOf_Some)
  moreover have "parent_or_root s" unfolding parent_or_root_def using m by (auto simp: parentOf_Some)
  ultimately show "tree_inv s" using k by (simp add: tree_inv_def)
qed

lemma ok_getBlock: "tree_ok s \<Longrightarrow> getBlock s i = blocks s i"
  by (cases "blocks s i") (auto simp: getBlock_def tree_ok_def keyed_def)

lemma ok_parent_live:
  assumes "tree_ok s" "blocks s i = Some b" "parentId b = Some p"
  shows "blocks s p \<noteq> None" "p \<noteq> []"
proof -
  have "parentOf (blocks s) i = Some (Some p)" using assms(2,3) by (simp add: parentOf_def)
  then have "i \<in> set (childIdsOf (blocks s) p)" using tree_okD(5)[OF assms(1)] by simp
  then show "blocks s p \<noteq> None" by (cases "blocks s p") (simp_all add: childIdsOf_def)
  then show "p \<noteq> []" using assms(1) by (auto simp: tree_ok_def keyed_def)
qed

lemma ok_truthy: "tree_ok s \<Longrightarrow> blocks s i = Some b \<Longrightarrow> truthyParent b = parentId b"
  using ok_parent_live(2)[of s i b] by (cases "parentId b") (auto simp: truthyParent_def)

lemma ok_siblings:
  assumes "tree_ok s" "blocks s i = Some b"
  shows "siblingsOf s b = refs s (parentId b)"
proof (cases "parentId b")
  case None
  then show ?thesis using assms by (simp add: siblingsOf_def ok_truthy refs_simps)
next
  case (Some p)
  then show ?thesis using assms
    by (cases "blocks s p") (simp_all add: siblingsOf_def ok_truthy ok_getBlock refs_simps childIdsOf_def)
qed

lemma ok_self: "tree_ok s \<Longrightarrow> blocks s i = Some b \<Longrightarrow> i \<in> set (refs s (parentId b))"
  by (simp add: tree_ok_def parentOf_def)

lemma permute_ok:
  assumes ok: "tree_ok s"
    and r: "\<And>Q. set (refs s' Q) = set (refs s Q) \<and> distinct (refs s' Q)"
    and p: "\<And>c. parentOf (blocks s') c = parentOf (blocks s) c"
    and i: "\<And>c. idOf (blocks s') c = idOf (blocks s) c"
  shows "tree_ok s'"
  using ok unfolding tree_ok_def keyed_idOf by (simp add: r p i)


section \<open>Lemmas: every mutation keeps the invariant\<close>


lemma moveBlockUp_missing: "tree_ok s \<Longrightarrow> blocks s i = None \<Longrightarrow> moveBlockUp i now s = s"
  by (simp add: moveBlockUp_def ok_getBlock)

lemma moveBlockUp_unfold:
  assumes "tree_ok s" "blocks s i = Some b"
  shows "moveBlockUp i now s =
     (let siblings = refs s (parentId b); index = indexOf siblings i
      in if index \<le> 0 then s
         else (let k = nat index;
                   s1 = (case parentId b of
                           None \<Rightarrow> s\<lparr>rootIds := insertAt (k - 1) [i, siblings ! (k - 1)]
                                                (deleteAt (k - 1) 2 (rootIds s))\<rparr>
                         | Some pid \<Rightarrow>
                             s\<lparr>blocks := setChildIds pid (swapAt (k - 1) k siblings) (blocks s)\<rparr>)
               in s1\<lparr>blocks := setUpdatedAt i now (blocks s1)\<rparr>))"
  using assms by (simp add: moveBlockUp_def ok_getBlock ok_siblings[OF assms] ok_truthy[OF assms] Let_def)

lemma moveBlockUp_ok:
  assumes ok: "tree_ok s"
  shows "tree_ok (moveBlockUp i now s)"
proof (cases "blocks s i")
  case None
  with ok show ?thesis by (simp add: moveBlockUp_missing)
next
  case (Some b)
  let ?L = "refs s (parentId b)"
  have mem: "i \<in> set ?L" using ok Some by (rule ok_self)
  note u = moveBlockUp_unfold[OF ok Some, of now]
  show ?thesis
  proof (cases "indexOf ?L i \<le> 0")
    case True
    then have "moveBlockUp i now s = s" unfolding u by (simp add: Let_def)
    with ok show ?thesis by simp
  next
    case False
    define k where "k = nat (indexOf ?L i)"
    have k0: "0 < k" using False by (simp add: k_def)
    have kl: "k < length ?L" unfolding k_def using mem by (rule indexOf_nth)
    have ki: "?L ! k = i" unfolding k_def using mem by (rule indexOf_nth)
    have sk: "Suc (k - 1) = k" using k0 by simp
    have kl': "k - 1 < length ?L" using kl by simp
    have skl: "Suc (k - 1) < length ?L" using k0 kl by arith
    show ?thesis
    proof (cases "parentId b")
      case None
      then have L: "?L = rootIds s" by (simp add: refs_simps)
      have "insertAt (k - 1) [?L ! Suc (k - 1), ?L ! (k - 1)] (deleteAt (k - 1) 2 ?L) =
            swapAt (k - 1) (Suc (k - 1)) ?L"
        using skl by (rule swap_by_splice)
      then have sw: "insertAt (k - 1) [i, rootIds s ! (k - 1)] (deleteAt (k - 1) 2 (rootIds s)) =
            swapAt (k - 1) k (rootIds s)"
        unfolding sk ki unfolding L .
      have kd: "nat (indexOf (rootIds s) i) = k" unfolding k_def L ..
      have e: "moveBlockUp i now s =
            s\<lparr>rootIds := swapAt (k - 1) k (rootIds s), blocks := setUpdatedAt i now (blocks s)\<rparr>"
        unfolding u using False None sw by (simp add: Let_def refs_simps kd)
      show ?thesis
      proof (rule permute_ok[OF ok])
        fix Q
        show "set (refs (moveBlockUp i now s) Q) = set (refs s Q) \<and> distinct (refs (moveBlockUp i now s) Q)"
          unfolding e using kl kl' tree_okD(2,3)[OF ok] L
          by (cases Q) (simp_all add: refs_simps obs_simps swapAt_set swapAt_distinct)
      qed (simp_all add: e obs_simps)
    next
      case (Some pid)
      then have L: "?L = childIdsOf (blocks s) pid" by (simp add: refs_simps)
      have live: "blocks s pid \<noteq> None" using ok \<open>blocks s i = Some b\<close> Some by (rule ok_parent_live)
      have kd: "nat (indexOf (childIdsOf (blocks s) pid) i) = k" unfolding k_def L ..
      have e: "moveBlockUp i now s =
            s\<lparr>blocks := setUpdatedAt i now
                  (setChildIds pid (swapAt (k - 1) k (childIdsOf (blocks s) pid)) (blocks s))\<rparr>"
        unfolding u using False Some by (simp add: Let_def refs_simps kd)
      show ?thesis
      proof (rule permute_ok[OF ok])
        fix Q
        show "set (refs (moveBlockUp i now s) Q) = set (refs s Q) \<and> distinct (refs (moveBlockUp i now s) Q)"
          unfolding e using kl kl' tree_okD(2,3)[OF ok] L live
          by (cases Q) (simp_all add: refs_simps obs_simps swapAt_set swapAt_distinct)
      qed (simp_all add: e obs_simps)
    qed
  qed
qed



lemma moveBlockDown_missing: "tree_ok s \<Longrightarrow> blocks s i = None \<Longrightarrow> moveBlockDown i now s = s"
  by (simp add: moveBlockDown_def ok_getBlock)

lemma moveBlockDown_unfold:
  assumes "tree_ok s" "blocks s i = Some b"
  shows "moveBlockDown i now s =
     (let siblings = refs s (parentId b); index = indexOf siblings i
      in if index < 0 \<or> index \<ge> int (length siblings) - 1 then s
         else (let k = nat index;
                   s1 = (case parentId b of
                           None \<Rightarrow> s\<lparr>rootIds := insertAt k [siblings ! (k + 1), i]
                                                (deleteAt k 2 (rootIds s))\<rparr>
                         | Some pid \<Rightarrow>
                             s\<lparr>blocks := setChildIds pid (swapAt k (k + 1) siblings) (blocks s)\<rparr>)
               in s1\<lparr>blocks := setUpdatedAt i now (blocks s1)\<rparr>))"
  using assms by (simp add: moveBlockDown_def ok_getBlock ok_siblings[OF assms] ok_truthy[OF assms] Let_def)

lemma moveBlockDown_ok:
  assumes ok: "tree_ok s"
  shows "tree_ok (moveBlockDown i now s)"
proof (cases "blocks s i")
  case None
  with ok show ?thesis by (simp add: moveBlockDown_missing)
next
  case (Some b)
  let ?L = "refs s (parentId b)"
  have mem: "i \<in> set ?L" using ok Some by (rule ok_self)
  note u = moveBlockDown_unfold[OF ok Some, of now]
  show ?thesis
  proof (cases "indexOf ?L i < 0 \<or> indexOf ?L i \<ge> int (length ?L) - 1")
    case True
    then have "moveBlockDown i now s = s" unfolding u by (simp add: Let_def)
    with ok show ?thesis by simp
  next
    case False
    define k where "k = nat (indexOf ?L i)"
    have skl: "Suc k < length ?L" using False unfolding k_def by arith
    have kl: "k < length ?L" using skl by simp
    have ki: "?L ! k = i" unfolding k_def using mem by (rule indexOf_nth)
    show ?thesis
    proof (cases "parentId b")
      case None
      then have L: "?L = rootIds s" by (simp add: refs_simps)
      have "insertAt k [?L ! Suc k, ?L ! k] (deleteAt k 2 ?L) = swapAt k (Suc k) ?L"
        using skl by (rule swap_by_splice)
      then have sw: "insertAt k [rootIds s ! Suc k, i] (deleteAt k 2 (rootIds s)) =
            swapAt k (Suc k) (rootIds s)"
        unfolding ki unfolding L .
      have kd: "nat (indexOf (rootIds s) i) = k" unfolding k_def L ..
      have e: "moveBlockDown i now s =
            s\<lparr>rootIds := swapAt k (Suc k) (rootIds s), blocks := setUpdatedAt i now (blocks s)\<rparr>"
        unfolding u using False None sw by (simp add: Let_def refs_simps kd)
      show ?thesis
      proof (rule permute_ok[OF ok])
        fix Q
        show "set (refs (moveBlockDown i now s) Q) = set (refs s Q) \<and> distinct (refs (moveBlockDown i now s) Q)"
          unfolding e using kl skl tree_okD(2,3)[OF ok] L
          by (cases Q) (simp_all add: refs_simps obs_simps swapAt_set swapAt_distinct)
      qed (simp_all add: e obs_simps)
    next
      case (Some pid)
      then have L: "?L = childIdsOf (blocks s) pid" by (simp add: refs_simps)
      have live: "blocks s pid \<noteq> None" using ok \<open>blocks s i = Some b\<close> Some by (rule ok_parent_live)
      have kd: "nat (indexOf (childIdsOf (blocks s) pid) i) = k" unfolding k_def L ..
      have e: "moveBlockDown i now s =
            s\<lparr>blocks := setUpdatedAt i now
                  (setChildIds pid (swapAt k (Suc k) (childIdsOf (blocks s) pid)) (blocks s))\<rparr>"
        unfolding u using False Some by (simp add: Let_def refs_simps kd)
      show ?thesis
      proof (rule permute_ok[OF ok])
        fix Q
        show "set (refs (moveBlockDown i now s) Q) = set (refs s Q) \<and> distinct (refs (moveBlockDown i now s) Q)"
          unfolding e using kl skl tree_okD(2,3)[OF ok] L live
          by (cases Q) (simp_all add: refs_simps obs_simps swapAt_set swapAt_distinct)
      qed (simp_all add: e obs_simps)
    qed
  qed
qed

text \<open>Deleting.\<close>

lemma deleteBlock_unfold:
  assumes "tree_ok s" "blocks s i = Some b"
  shows "deleteBlock i s =
     (if childIds b \<noteq> [] then s
      else (case parentId b of
              Some pid \<Rightarrow>
                s\<lparr>blocks := (setChildIds pid (filter (\<lambda>cid. cid \<noteq> i) (childIdsOf (blocks s) pid))
                               (blocks s))(i := None)\<rparr>
            | None \<Rightarrow> s\<lparr>blocks := (blocks s)(i := None), rootIds := remove1 i (rootIds s)\<rparr>))"
  using assms
  by (cases "parentId b")
     (simp_all add: deleteBlock_def ok_getBlock ok_truthy[OF assms] Let_def removeRoot_remove1)

lemma deleteBlock_ok:
  assumes ok: "tree_ok s"
  shows "tree_ok (deleteBlock i s)"
proof (cases "blocks s i")
  case None
  with ok show ?thesis by (simp add: deleteBlock_def ok_getBlock)
next
  case (Some b)
  note u = deleteBlock_unfold[OF ok Some]
  note d = tree_okD[OF ok]
  have pi: "parentOf (blocks s) i = Some (parentId b)" using Some by (simp add: parentOf_def)
  show ?thesis
  proof (cases "childIds b = []")
    case False
    then show ?thesis using ok by (simp add: u)
  next
    case True
    then have nokids: "childIdsOf (blocks s) i = []" using Some by (simp add: childIdsOf_def)
    have nochild: "parentOf (blocks s) c \<noteq> Some (Some i)" for c
      using d(5)[of c i] nokids by simp
    show ?thesis
    proof (cases "parentId b")
      case None
      have e: "deleteBlock i s = s\<lparr>blocks := (blocks s)(i := None), rootIds := remove1 i (rootIds s)\<rparr>"
        using True None by (simp add: u)
      show ?thesis
      proof (rule tree_okI)
        fix j x assume "idOf (blocks (deleteBlock i s)) j = Some x"
        then show "x = j \<and> j \<noteq> []" using d(1)[of j x] by (simp add: e obs_simps split: if_splits)
      next
        show "distinct (rootIds (deleteBlock i s))" using d(2) by (simp add: e)
      next
        fix p show "distinct (childIdsOf (blocks (deleteBlock i s)) p)"
          by (simp add: e obs_simps d(3))
      next
        fix c show "(c \<in> set (rootIds (deleteBlock i s))) = (parentOf (blocks (deleteBlock i s)) c = Some None)"
          using d(2) d(4)[of c] by (simp add: e obs_simps)
      next
        fix p c
        show "(c \<in> set (childIdsOf (blocks (deleteBlock i s)) p)) =
              (parentOf (blocks (deleteBlock i s)) c = Some (Some p))"
          using d(5)[of c p] pi None nochild[of c] by (auto simp add: e obs_simps)
      qed
    next
      case (Some pid)
      have live: "blocks s pid \<noteq> None" using ok \<open>blocks s i = Some b\<close> Some by (rule ok_parent_live)
      have e: "deleteBlock i s =
            s\<lparr>blocks := (setChildIds pid (filter (\<lambda>cid. cid \<noteq> i) (childIdsOf (blocks s) pid))
                               (blocks s))(i := None)\<rparr>"
        using True Some by (simp add: u)
      show ?thesis
      proof (rule tree_okI)
        fix j x assume "idOf (blocks (deleteBlock i s)) j = Some x"
        then show "x = j \<and> j \<noteq> []" using d(1)[of j x] by (simp add: e obs_simps split: if_splits)
      next
        show "distinct (rootIds (deleteBlock i s))" using d(2) by (simp add: e)
      next
        fix p show "distinct (childIdsOf (blocks (deleteBlock i s)) p)"
          by (simp add: e obs_simps d(3))
      next
        fix c show "(c \<in> set (rootIds (deleteBlock i s))) = (parentOf (blocks (deleteBlock i s)) c = Some None)"
          using d(4)[of c] pi Some by (auto simp add: e obs_simps)
      next
        fix p c
        show "(c \<in> set (childIdsOf (blocks (deleteBlock i s)) p)) =
              (parentOf (blocks (deleteBlock i s)) c = Some (Some p))"
          using d(5)[of c p] pi Some nochild[of c] live by (auto simp add: e obs_simps)
      qed
    qed
  qed
qed



lemma fresh_facts:
  assumes ok: "tree_ok s" and f: "blocks s n = None"
  shows "parentOf (blocks s) n = None" and "childIdsOf (blocks s) n = []"
    and "n \<notin> set (rootIds s)" and "n \<notin> set (childIdsOf (blocks s) p)"
    and "parentOf (blocks s) c \<noteq> Some (Some n)"
proof -
  note d = tree_okD[OF ok]
  show pn: "parentOf (blocks s) n = None" using f by (simp add: parentOf_def)
  show cn: "childIdsOf (blocks s) n = []" using f by (simp add: childIdsOf_def)
  show "n \<notin> set (rootIds s)" using d(4)[of n] pn by simp
  show "n \<notin> set (childIdsOf (blocks s) p)" using d(5)[of n p] pn by simp
  show "parentOf (blocks s) c \<noteq> Some (Some n)" using d(5)[of c n] cn by simp
qed

lemma createBlockInside_ok:
  assumes ok: "tree_ok s" and ne: "n \<noteq> []" and f: "blocks s n = None"
  shows "tree_ok (snd (createBlockInside pid n now s))"
proof (cases "blocks s pid")
  case None
  with ok show ?thesis by (simp add: createBlockInside_def ok_getBlock)
next
  case (Some pb)
  note d = tree_okD[OF ok]
  note fr = fresh_facts[OF ok f]
  have pn: "pid \<noteq> n" using Some f by auto
  let ?s' = "snd (createBlockInside pid n now s)"
  have e: "?s' = s\<lparr>blocks := setCollapsed pid False
                    (setChildIds pid (childIdsOf (blocks s) pid @ [n])
                       ((blocks s)(n \<mapsto> createBlock n [] (Some pid) now)))\<rparr>"
    using Some pn ok by (simp add: createBlockInside_def ok_getBlock Let_def obs_simps)
  show ?thesis
  proof (rule tree_okI)
    fix j x assume "idOf (blocks ?s') j = Some x"
    then show "x = j \<and> j \<noteq> []" using d(1)[of j x] ne
      by (simp add: e obs_simps createBlock_def split: if_splits)
  next
    show "distinct (rootIds ?s')" using d(2) by (simp add: e)
  next
    fix p show "distinct (childIdsOf (blocks ?s') p)"
      using fr(4)[of pid] by (simp add: e obs_simps d(3) createBlock_def)
  next
    fix c show "(c \<in> set (rootIds ?s')) = (parentOf (blocks ?s') c = Some None)"
      using d(4)[of c] fr(3) by (auto simp add: e obs_simps createBlock_def)
  next
    fix p c
    show "(c \<in> set (childIdsOf (blocks ?s') p)) = (parentOf (blocks ?s') c = Some (Some p))"
      using d(5)[of c p] fr(4)[of p] fr(5)[of c] pn Some
      by (auto simp add: e obs_simps createBlock_def)
  qed
qed

lemma createBlockAfter_ok:
  assumes ok: "tree_ok s" and ne: "n \<noteq> []" and f: "blocks s n = None"
  shows "tree_ok (snd (createBlockAfter a n now s))"
proof (cases "blocks s a")
  case None
  with ok show ?thesis by (simp add: createBlockAfter_def ok_getBlock)
next
  case (Some b)
  note d = tree_okD[OF ok]
  note fr = fresh_facts[OF ok f]
  let ?s' = "snd (createBlockAfter a n now s)"
  show ?thesis
  proof (cases "parentId b")
    case None
    obtain k where e: "?s' = s\<lparr>blocks := (blocks s)(n \<mapsto> createBlock n [] None now),
                              rootIds := insertAt k [n] (rootIds s)\<rparr>"
      using Some None ok by (simp add: createBlockAfter_def ok_getBlock ok_truthy[OF ok Some] Let_def)
    show ?thesis
    proof (rule tree_okI)
      fix j x assume "idOf (blocks ?s') j = Some x"
      then show "x = j \<and> j \<noteq> []" using d(1)[of j x] ne
        by (simp add: e obs_simps createBlock_def split: if_splits)
    next
      show "distinct (rootIds ?s')" using d(2) fr(3) by (simp add: e distinct_insertAt1)
    next
      fix p show "distinct (childIdsOf (blocks ?s') p)"
        by (simp add: e obs_simps d(3) createBlock_def)
    next
      fix c show "(c \<in> set (rootIds ?s')) = (parentOf (blocks ?s') c = Some None)"
        using d(4)[of c] by (auto simp add: e obs_simps createBlock_def set_insertAt)
    next
      fix p c
      show "(c \<in> set (childIdsOf (blocks ?s') p)) = (parentOf (blocks ?s') c = Some (Some p))"
        using d(5)[of c p] fr(4)[of p] fr(5)[of c]
        by (auto simp add: e obs_simps createBlock_def)
    qed
  next
    case (Some pid)
    have live: "blocks s pid \<noteq> None" using ok \<open>blocks s a = Some b\<close> Some by (rule ok_parent_live)
    then have pn: "pid \<noteq> n" using f by auto
    obtain k where e: "?s' = s\<lparr>blocks := setChildIds pid (insertAt k [n] (childIdsOf (blocks s) pid))
                               ((blocks s)(n \<mapsto> createBlock n [] (Some pid) now))\<rparr>"
      using \<open>blocks s a = Some b\<close> Some ok pn
      by (simp add: createBlockAfter_def ok_getBlock ok_truthy[OF ok \<open>blocks s a = Some b\<close>] Let_def
          obs_simps)
    show ?thesis
    proof (rule tree_okI)
      fix j x assume "idOf (blocks ?s') j = Some x"
      then show "x = j \<and> j \<noteq> []" using d(1)[of j x] ne
        by (simp add: e obs_simps createBlock_def split: if_splits)
    next
      show "distinct (rootIds ?s')" using d(2) by (simp add: e)
    next
      fix p show "distinct (childIdsOf (blocks ?s') p)"
        using fr(4)[of pid] by (simp add: e obs_simps d(3) createBlock_def distinct_insertAt1)
    next
      fix c show "(c \<in> set (rootIds ?s')) = (parentOf (blocks ?s') c = Some None)"
        using d(4)[of c] fr(3) by (auto simp add: e obs_simps createBlock_def)
    next
      fix p c
      show "(c \<in> set (childIdsOf (blocks ?s') p)) = (parentOf (blocks ?s') c = Some (Some p))"
        using d(5)[of c p] fr(4)[of p] fr(5)[of c] pn live
        by (auto simp add: e obs_simps createBlock_def set_insertAt)
    qed
  qed
qed



text \<open>Indenting.\<close>

lemma indentBlock_noop:
  assumes "tree_ok s" "blocks s i = Some b" "indexOf (refs s (parentId b)) i \<le> 0"
  shows "indentBlock i now s = s"
  using assms by (simp add: indentBlock_def ok_getBlock ok_siblings[OF assms(1,2)] Let_def)

lemma indentBlock_unfold:
  assumes "getBlock s i = Some b" "siblingsOf s b = L" "\<not> indexOf L i \<le> 0"
    and "L ! nat (indexOf L i - 1) = N" "getBlock s N = Some nb" "truthyParent b = P"
  shows "indentBlock i now s =
       (let s1 = (case P of
                    None \<Rightarrow> s\<lparr>rootIds := removeRoot i (rootIds s)\<rparr>
                  | Some pid \<Rightarrow>
                      s\<lparr>blocks := setChildIds pid
                           (filter (\<lambda>cid. cid \<noteq> i) (childIdsOf (blocks s) pid)) (blocks s)\<rparr>)
        in s1\<lparr>blocks := setUpdatedAt i now (setParentId i (Some N) (setCollapsed N False
                 (setChildIds N (childIdsOf (blocks s1) N @ [i]) (blocks s1))))\<rparr>)"
  using assms by (simp add: indentBlock_def Let_def)

lemma indentBlock_effect:
  assumes ok: "tree_ok s" and b: "blocks s i = Some b"
    and pos: "0 < indexOf (refs s (parentId b)) i"
    and N: "N = refs s (parentId b) ! (nat (indexOf (refs s (parentId b)) i) - 1)"
  shows "parentOf (blocks s) N = Some (parentId b)" and "N \<noteq> i"
    and "indentBlock i now s =
       (case parentId b of
          Some pid \<Rightarrow>
            s\<lparr>blocks := setUpdatedAt i now (setParentId i (Some N) (setCollapsed N False
                 (setChildIds N
                    (childIdsOf (setChildIds pid (filter (\<lambda>cid. cid \<noteq> i) (childIdsOf (blocks s) pid))
                                   (blocks s)) N @ [i])
                    (setChildIds pid (filter (\<lambda>cid. cid \<noteq> i) (childIdsOf (blocks s) pid))
                       (blocks s)))))\<rparr>
        | None \<Rightarrow>
            s\<lparr>rootIds := remove1 i (rootIds s),
              blocks := setUpdatedAt i now (setParentId i (Some N) (setCollapsed N False
                 (setChildIds N (childIdsOf (blocks s) N @ [i]) (blocks s))))\<rparr>)"
proof -
  let ?L = "refs s (parentId b)"
  define k where "k = nat (indexOf ?L i)"
  have mem: "i \<in> set ?L" using ok b by (rule ok_self)
  have k0: "0 < k" using pos by (simp add: k_def)
  have kl: "k < length ?L" unfolding k_def using mem by (rule indexOf_nth)
  have ki: "?L ! k = i" unfolding k_def using mem by (rule indexOf_nth)
  have Nk: "N = ?L ! (k - 1)" unfolding N k_def ..
  have dL: "distinct ?L" using ok by (simp add: tree_ok_def)
  have "N \<in> set ?L" unfolding Nk using kl by simp
  then show pN: "parentOf (blocks s) N = Some (parentId b)" using ok by (simp add: tree_ok_def)
  show ni: "N \<noteq> i"
  proof
    assume "N = i"
    then have "?L ! (k - 1) = ?L ! k" using Nk ki by simp
    then have "k - 1 = k" using dL kl by (simp add: nth_eq_iff_index_eq)
    then show False using k0 by simp
  qed
  from pN have live: "blocks s N \<noteq> None" by (auto simp: parentOf_def)
  have idx: "nat (indexOf ?L i - 1) = k - 1" by (simp add: k_def)
  have g: "\<not> indexOf ?L i \<le> 0" using pos by simp
  obtain nb where nb: "blocks s N = Some nb" using live by blast
  have gb: "getBlock s i = Some b" using ok b by (simp add: ok_getBlock)
  have gn: "getBlock s N = Some nb" using ok nb by (simp add: ok_getBlock)
  have ln: "?L ! nat (indexOf ?L i - 1) = N" unfolding idx Nk ..
  note step = indentBlock_unfold[OF gb ok_siblings[OF ok b] g ln gn ok_truthy[OF ok b], of now]
  show "indentBlock i now s =
       (case parentId b of
          Some pid \<Rightarrow>
            s\<lparr>blocks := setUpdatedAt i now (setParentId i (Some N) (setCollapsed N False
                 (setChildIds N
                    (childIdsOf (setChildIds pid (filter (\<lambda>cid. cid \<noteq> i) (childIdsOf (blocks s) pid))
                                   (blocks s)) N @ [i])
                    (setChildIds pid (filter (\<lambda>cid. cid \<noteq> i) (childIdsOf (blocks s) pid))
                       (blocks s)))))\<rparr>
        | None \<Rightarrow>
            s\<lparr>rootIds := remove1 i (rootIds s),
              blocks := setUpdatedAt i now (setParentId i (Some N) (setCollapsed N False
                 (setChildIds N (childIdsOf (blocks s) N @ [i]) (blocks s))))\<rparr>)"
    unfolding step by (cases "parentId b") (simp_all add: Let_def removeRoot_remove1)
qed

lemma indentBlock_ok:
  assumes ok: "tree_ok s"
  shows "tree_ok (indentBlock i now s)"
proof (cases "blocks s i")
  case None
  with ok show ?thesis by (simp add: indentBlock_def ok_getBlock)
next
  case (Some b)
  let ?L = "refs s (parentId b)"
  show ?thesis
  proof (cases "indexOf ?L i \<le> 0")
    case True
    with ok Some have "indentBlock i now s = s" by (rule indentBlock_noop)
    with ok show ?thesis by simp
  next
    case False
    then have pos: "0 < indexOf ?L i" by simp
    define N where "N = ?L ! (nat (indexOf ?L i) - 1)"
    note eff = indentBlock_effect[OF ok Some pos N_def]
    note d = tree_okD[OF ok]
    have pi: "parentOf (blocks s) i = Some (parentId b)" using Some by (simp add: parentOf_def)
    have pN: "parentOf (blocks s) N = Some (parentId b)" by (rule eff(1))
    have ni: "N \<noteq> i" by (rule eff(2))
    have liveN: "blocks s N \<noteq> None" using pN by (auto simp: parentOf_def)
    let ?s' = "indentBlock i now s"
    show ?thesis
    proof (cases "parentId b")
      case None
      have e: "?s' = s\<lparr>rootIds := remove1 i (rootIds s),
              blocks := setUpdatedAt i now (setParentId i (Some N) (setCollapsed N False
                 (setChildIds N (childIdsOf (blocks s) N @ [i]) (blocks s))))\<rparr>"
        using eff(3) None by simp
      have iN: "i \<notin> set (childIdsOf (blocks s) N)" using d(5)[of i N] pi None by simp
      show ?thesis
      proof (rule tree_okI)
        fix j x assume "idOf (blocks ?s') j = Some x"
        then show "x = j \<and> j \<noteq> []" using d(1)[of j x] by (simp add: e obs_simps)
      next
        show "distinct (rootIds ?s')" using d(2) by (simp add: e)
      next
        fix p show "distinct (childIdsOf (blocks ?s') p)"
          using iN by (simp add: e obs_simps d(3))
      next
        fix c show "(c \<in> set (rootIds ?s')) = (parentOf (blocks ?s') c = Some None)"
          using d(2) d(4)[of c] Some by (auto simp add: e obs_simps live_setters)
      next
        fix p c
        show "(c \<in> set (childIdsOf (blocks ?s') p)) = (parentOf (blocks ?s') c = Some (Some p))"
          using d(5)[of c p] pi None liveN Some by (auto simp add: e obs_simps live_setters)
      qed
    next
      case (Some pid)
      have livep: "blocks s pid \<noteq> None" using ok \<open>blocks s i = Some b\<close> Some by (rule ok_parent_live)
      have e: "?s' = s\<lparr>blocks := setUpdatedAt i now (setParentId i (Some N) (setCollapsed N False
                 (setChildIds N
                    (childIdsOf (setChildIds pid (filter (\<lambda>cid. cid \<noteq> i) (childIdsOf (blocks s) pid))
                                   (blocks s)) N @ [i])
                    (setChildIds pid (filter (\<lambda>cid. cid \<noteq> i) (childIdsOf (blocks s) pid))
                       (blocks s)))))\<rparr>"
        using eff(3) Some by simp
      have iN: "pid \<noteq> N \<Longrightarrow> i \<notin> set (childIdsOf (blocks s) N)" using d(5)[of i N] pi Some by simp
      show ?thesis
      proof (rule tree_okI)
        fix j x assume "idOf (blocks ?s') j = Some x"
        then show "x = j \<and> j \<noteq> []" using d(1)[of j x] by (simp add: e obs_simps)
      next
        show "distinct (rootIds ?s')" using d(2) by (simp add: e)
      next
        fix p show "distinct (childIdsOf (blocks ?s') p)"
          using iN livep by (auto simp add: e obs_simps d(3) live_setters)
      next
        fix c show "(c \<in> set (rootIds ?s')) = (parentOf (blocks ?s') c = Some None)"
          using d(4)[of c] pi Some \<open>blocks s i = Some b\<close> by (auto simp add: e obs_simps live_setters)
      next
        fix p c
        show "(c \<in> set (childIdsOf (blocks ?s') p)) = (parentOf (blocks ?s') c = Some (Some p))"
          using d(5)[of c p] pi Some liveN livep \<open>blocks s i = Some b\<close>
          by (auto simp add: e obs_simps live_setters)
      qed
    qed
  qed
qed



text \<open>Outdenting.\<close>

lemma outdentBlock_unfold:
  assumes "getBlock s i = Some b" "truthyParent b = Some pid" "getBlock s pid = Some pb"
    and "truthyParent pb = G"
  shows "outdentBlock i now s =
       (let m1 = setChildIds pid (filter (\<lambda>cid. cid \<noteq> i) (childIdsOf (blocks s) pid)) (blocks s);
            s2 = (case G of
                    Some gid \<Rightarrow>
                      s\<lparr>blocks := setChildIds gid
                           (insertAt (nat (indexOf (childIdsOf m1 gid) pid + 1)) [i] (childIdsOf m1 gid)) m1\<rparr>
                  | None \<Rightarrow>
                      s\<lparr>blocks := m1,
                        rootIds := insertAt (nat (indexOf (rootIds s) pid + 1)) [i] (rootIds s)\<rparr>)
        in s2\<lparr>blocks := setUpdatedAt i now (setParentId i (parentId pb) (blocks s2))\<rparr>)"
  using assms by (cases G) (simp_all add: outdentBlock_def Let_def)

lemma outdentBlock_effect:
  assumes ok: "tree_ok s" and b: "blocks s i = Some b" and p: "parentId b = Some pid"
    and pb: "blocks s pid = Some pb"
  shows "outdentBlock i now s =
       (case parentId pb of
          Some gid \<Rightarrow>
            s\<lparr>blocks := setUpdatedAt i now (setParentId i (Some gid)
                 (setChildIds gid
                    (insertAt (nat (indexOf (childIdsOf (setChildIds pid
                          (filter (\<lambda>cid. cid \<noteq> i) (childIdsOf (blocks s) pid)) (blocks s)) gid) pid + 1)) [i]
                       (childIdsOf (setChildIds pid
                          (filter (\<lambda>cid. cid \<noteq> i) (childIdsOf (blocks s) pid)) (blocks s)) gid))
                    (setChildIds pid (filter (\<lambda>cid. cid \<noteq> i) (childIdsOf (blocks s) pid)) (blocks s))))\<rparr>
        | None \<Rightarrow>
            s\<lparr>blocks := setUpdatedAt i now (setParentId i None
                 (setChildIds pid (filter (\<lambda>cid. cid \<noteq> i) (childIdsOf (blocks s) pid)) (blocks s))),
              rootIds := insertAt (nat (indexOf (rootIds s) pid + 1)) [i] (rootIds s)\<rparr>)"
proof -
  have gb: "getBlock s i = Some b" using ok b by (simp add: ok_getBlock)
  have gp: "getBlock s pid = Some pb" using ok pb by (simp add: ok_getBlock)
  have tb: "truthyParent b = Some pid" using ok_truthy[OF ok b] p by simp
  note step = outdentBlock_unfold[OF gb tb gp ok_truthy[OF ok pb], of now]
  show ?thesis unfolding step by (cases "parentId pb") (simp_all add: Let_def)
qed

lemma outdentBlock_ok:
  assumes ok: "tree_ok s"
  shows "tree_ok (outdentBlock i now s)"
proof (cases "blocks s i")
  case None
  with ok show ?thesis by (simp add: outdentBlock_def ok_getBlock)
next
  case (Some b)
  note b = Some
  note d = tree_okD[OF ok]
  have pi: "parentOf (blocks s) i = Some (parentId b)" using b by (simp add: parentOf_def)
  let ?s' = "outdentBlock i now s"
  show ?thesis
  proof (cases "parentId b")
    case None
    then have "truthyParent b = None" by (simp add: truthyParent_def)
    then have "?s' = s" using ok b by (simp add: outdentBlock_def ok_getBlock)
    with ok show ?thesis by simp
  next
    case (Some pid)
    have livep: "blocks s pid \<noteq> None" using ok b Some by (rule ok_parent_live)
    then obtain pb where pb: "blocks s pid = Some pb" by blast
    note eff = outdentBlock_effect[OF ok b Some pb, of now]
    have ip: "i \<in> set (childIdsOf (blocks s) pid)" using d(5)[of i pid] pi Some by simp
    have inotin: "q \<noteq> pid \<Longrightarrow> i \<notin> set (childIdsOf (blocks s) q)" for q
      using d(5)[of i q] pi Some by simp
    have inr: "i \<notin> set (rootIds s)" using d(4)[of i] pi Some by simp
    show ?thesis
    proof (cases "parentId pb")
      case None
      obtain k where e: "?s' = s\<lparr>blocks := setUpdatedAt i now (setParentId i None
                 (setChildIds pid (filter (\<lambda>cid. cid \<noteq> i) (childIdsOf (blocks s) pid)) (blocks s))),
              rootIds := insertAt k [i] (rootIds s)\<rparr>"
        using eff None by simp
      show ?thesis
      proof (rule tree_okI)
        fix j x assume "idOf (blocks ?s') j = Some x"
        then show "x = j \<and> j \<noteq> []" using d(1)[of j x] by (simp add: e obs_simps)
      next
        show "distinct (rootIds ?s')" using d(2) inr by (simp add: e distinct_insertAt1)
      next
        fix p show "distinct (childIdsOf (blocks ?s') p)"
          by (simp add: e obs_simps d(3) live_setters)
      next
        fix c show "(c \<in> set (rootIds ?s')) = (parentOf (blocks ?s') c = Some None)"
          using d(4)[of c] b by (auto simp add: e obs_simps live_setters set_insertAt)
      next
        fix p c
        show "(c \<in> set (childIdsOf (blocks ?s') p)) = (parentOf (blocks ?s') c = Some (Some p))"
          using d(5)[of c p] pi Some b livep
          by (auto simp add: e obs_simps live_setters)
      qed
    next
      case (Some gid)
      have liveg: "blocks s gid \<noteq> None" using ok pb Some by (rule ok_parent_live)
      obtain k where e: "?s' = s\<lparr>blocks := setUpdatedAt i now (setParentId i (Some gid)
                 (setChildIds gid
                    (insertAt k [i]
                       (childIdsOf (setChildIds pid
                          (filter (\<lambda>cid. cid \<noteq> i) (childIdsOf (blocks s) pid)) (blocks s)) gid))
                    (setChildIds pid (filter (\<lambda>cid. cid \<noteq> i) (childIdsOf (blocks s) pid)) (blocks s))))\<rparr>"
        using eff Some by simp
      show ?thesis
      proof (rule tree_okI)
        fix j x assume "idOf (blocks ?s') j = Some x"
        then show "x = j \<and> j \<noteq> []" using d(1)[of j x] by (simp add: e obs_simps)
      next
        show "distinct (rootIds ?s')" using d(2) by (simp add: e)
      next
        fix p show "distinct (childIdsOf (blocks ?s') p)"
          using inotin[of gid] livep liveg
          by (auto simp add: e obs_simps d(3) live_setters distinct_insertAt1)
      next
        fix c show "(c \<in> set (rootIds ?s')) = (parentOf (blocks ?s') c = Some None)"
          using d(4)[of c] b inr by (auto simp add: e obs_simps live_setters)
      next
        fix p c
        show "(c \<in> set (childIdsOf (blocks ?s') p)) = (parentOf (blocks ?s') c = Some (Some p))"
          using d(5)[of c p] pi \<open>parentId b = Some pid\<close> b livep liveg
          by (auto simp add: e obs_simps live_setters set_insertAt)
      qed
    qed
  qed
qed



lemma sibling_decomp:
  assumes d: "distinct L" and k0: "0 < k" and kl: "k < length L"
  shows "\<exists>pre post. L = pre @ L ! (k - 1) # L ! k # post \<and> length pre = k - 1"
proof -
  have "Suc (k - 1) < length L" using k0 kl by arith
  from two_decomp[OF this] have "\<exists>a b. L = a @ L ! (k - 1) # L ! Suc (k - 1) # b \<and> length a = k - 1" .
  moreover have "Suc (k - 1) = k" using k0 by simp
  ultimately show ?thesis by simp
qed

lemma remove_middle:
  assumes "distinct (pre @ N # i # post)"
  shows "remove1 i (pre @ N # i # post) = pre @ N # post"
    and "filter (\<lambda>c. c \<noteq> i) (pre @ N # i # post) = pre @ N # post"
    and "indexOf (pre @ N # post) N = int (length pre)"
    and "insertAt (nat (int (length pre) + 1)) [i] (pre @ N # post) = pre @ N # i # post"
    and "filter (\<lambda>c. c \<noteq> i) (pre @ N # post) = pre @ N # post"
proof -
  from assms have a: "i \<notin> set pre" "i \<noteq> N" "i \<notin> set post" "N \<notin> set pre" by auto
  have fp: "filter (\<lambda>c. c \<noteq> i) pre = pre" "filter (\<lambda>c. c \<noteq> i) post = post"
    using a by (simp_all add: filter_neq_absent)
  show "remove1 i (pre @ N # i # post) = pre @ N # post" using a by (simp add: remove1_append)
  show "filter (\<lambda>c. c \<noteq> i) (pre @ N # i # post) = pre @ N # post" using a fp by simp
  show "indexOf (pre @ N # post) N = int (length pre)" using a(4) by (rule indexOf_first)
  show "insertAt (nat (int (length pre) + 1)) [i] (pre @ N # post) = pre @ N # i # post"
    by (simp add: insertAt_def nat_add_distrib)
  show "filter (\<lambda>c. c \<noteq> i) (pre @ N # post) = pre @ N # post" using a fp by simp
qed

lemma filter_snoc_self: "i \<notin> set X \<Longrightarrow> filter (\<lambda>c. c \<noteq> i) (X @ [i]) = X"
  by (simp add: filter_neq_absent)

lemma indent_outdent_restores:
  assumes ok: "tree_ok s" and b: "blocks s i = Some b"
    and pos: "0 < indexOf (refs s (parentId b)) i"
  shows "rootIds (outdentBlock i u (indentBlock i t s)) = rootIds s"
    and "childIdsOf (blocks (outdentBlock i u (indentBlock i t s))) q = childIdsOf (blocks s) q"
    and "parentOf (blocks (outdentBlock i u (indentBlock i t s))) c = parentOf (blocks s) c"
proof -
  let ?L = "refs s (parentId b)"
  define k where "k = nat (indexOf ?L i)"
  define N where "N = ?L ! (nat (indexOf ?L i) - 1)"
  note d = tree_okD[OF ok]
  have mem: "i \<in> set ?L" using ok b by (rule ok_self)
  have k0: "0 < k" using pos by (simp add: k_def)
  have kl: "k < length ?L" unfolding k_def using mem by (rule indexOf_nth)
  have ki: "?L ! k = i" unfolding k_def using mem by (rule indexOf_nth)
  have Nk: "?L ! (k - 1) = N" unfolding N_def k_def ..
  have dL: "distinct ?L" using ok by (simp add: tree_ok_def)
  from sibling_decomp[OF dL k0 kl] obtain pre post where L: "?L = pre @ N # i # post"
    unfolding Nk ki by blast
  have dd: "distinct (pre @ N # i # post)" using dL unfolding L .
  note lf = remove_middle[OF dd]
  note eff = indentBlock_effect[OF ok b pos N_def]
  have pi: "parentOf (blocks s) i = Some (parentId b)" using b by (simp add: parentOf_def)
  have pN: "parentOf (blocks s) N = Some (parentId b)" by (rule eff(1))
  have ni: "N \<noteq> i" by (rule eff(2))
  obtain nb where nb: "blocks s N = Some nb" "parentId nb = parentId b"
    using pN unfolding parentOf_Some by blast
  let ?t = "indentBlock i t s"
  have okt: "tree_ok ?t" using ok by (rule indentBlock_ok)
  let ?u = "outdentBlock i u ?t"
  have goal: "rootIds ?u = rootIds s \<and> childIdsOf (blocks ?u) q = childIdsOf (blocks s) q \<and>
        parentOf (blocks ?u) c = parentOf (blocks s) c"
  proof (cases "parentId b")
    case None
    then have R: "rootIds s = pre @ N # i # post" using L by (simp add: refs_simps)
    have iN: "i \<notin> set (childIdsOf (blocks s) N)" using d(5)[of i N] pi None by simp
    have e: "?t = s\<lparr>rootIds := pre @ N # post,
              blocks := setUpdatedAt i t (setParentId i (Some N) (setCollapsed N False
                 (setChildIds N (childIdsOf (blocks s) N @ [i]) (blocks s))))\<rparr>"
      using eff(3)[of t] unfolding None option.case R lf(1) .
    obtain b' where bt: "blocks ?t i = Some b'" and pt: "parentId b' = Some N"
      using b ni nb(1)
      by (simp add: e setUpdatedAt_def setParentId_def setCollapsed_def setChildIds_def
          setValueOnYMap_apply)
    obtain nb' where nbt: "blocks ?t N = Some nb'" and pnt: "parentId nb' = None"
      using nb ni None
      by (simp add: e setUpdatedAt_def setParentId_def setCollapsed_def setChildIds_def
          setValueOnYMap_apply)
    note eo = outdentBlock_effect[OF okt bt pt nbt, of u]
    have rt: "rootIds ?t = pre @ N # post" by (simp add: e)
    have ct: "childIdsOf (blocks ?t) N = childIdsOf (blocks s) N @ [i]"
      using nb(1) by (simp add: e obs_simps)
    have e2: "?u = ?t\<lparr>blocks := setUpdatedAt i u (setParentId i None
                 (setChildIds N (childIdsOf (blocks s) N) (blocks ?t))),
              rootIds := pre @ N # i # post\<rparr>"
      using eo unfolding pnt option.case ct filter_snoc_self[OF iN] rt lf(3) lf(4) .
    have lN: "blocks ?t N \<noteq> None" using nbt by simp
    have li: "blocks ?t i \<noteq> None" using bt by simp
    show ?thesis
      apply (subst e2, subst e2, subst e2)
      using lN li nb(1) b pi None R
      by (simp add: obs_simps live_setters) (simp add: e obs_simps live_setters)
  next
    case (Some pid)
    then have C: "childIdsOf (blocks s) pid = pre @ N # i # post" using L by (simp add: refs_simps)
    have livep: "blocks s pid \<noteq> None" using ok b Some by (rule ok_parent_live)
    have iN: "pid \<noteq> N \<Longrightarrow> i \<notin> set (childIdsOf (blocks s) N)" using d(5)[of i N] pi Some by simp
    let ?m1 = "setChildIds pid (pre @ N # post) (blocks s)"
    let ?X = "childIdsOf ?m1 N"
    have e: "?t = s\<lparr>blocks := setUpdatedAt i t (setParentId i (Some N) (setCollapsed N False
                 (setChildIds N (?X @ [i]) ?m1)))\<rparr>"
      using eff(3)[of t] unfolding Some option.case C lf(2) .
    have X: "?X = (if pid = N then pre @ N # post else childIdsOf (blocks s) N)"
      using livep by (simp add: obs_simps)
    have iX: "i \<notin> set ?X" unfolding X using iN dd by auto
    have "parentOf (blocks ?t) i = Some (Some N)"
      using b by (simp add: e obs_simps live_setters)
    then obtain b' where bt: "blocks ?t i = Some b'" and pt: "parentId b' = Some N"
      unfolding parentOf_Some by blast
    have "parentOf (blocks ?t) N = Some (Some pid)"
      using pN ni Some by (simp add: e obs_simps live_setters)
    then obtain nb' where nbt: "blocks ?t N = Some nb'" and pnt: "parentId nb' = Some pid"
      unfolding parentOf_Some by blast
    note eo = outdentBlock_effect[OF okt bt pt nbt, of u]
    have lN: "blocks ?t N \<noteq> None" using nbt by simp
    have li: "blocks ?t i \<noteq> None" using bt by simp
    have lp: "blocks ?t pid \<noteq> None" using livep by (simp add: e live_setters)
    have ct: "childIdsOf (blocks ?t) N = ?X @ [i]"
      using nb(1) livep by (simp add: e obs_simps live_setters)
    let ?m2 = "setChildIds N ?X (blocks ?t)"
    have cg: "childIdsOf ?m2 pid = pre @ N # post"
      using lN livep by (simp add: obs_simps X) (simp add: e obs_simps live_setters)
    have e2: "?u = ?t\<lparr>blocks := setUpdatedAt i u (setParentId i (Some pid)
                 (setChildIds pid (pre @ N # i # post) ?m2))\<rparr>"
      using eo unfolding pnt option.case ct filter_snoc_self[OF iX] cg lf(3) lf(4) .
    show ?thesis
      apply (subst e2, subst e2, subst e2)
      using lN li lp nb(1) b pi Some C livep ni
      by (simp add: obs_simps live_setters X) (auto simp add: e obs_simps live_setters)
  qed
  show "rootIds ?u = rootIds s" using goal by simp
  show "childIdsOf (blocks ?u) q = childIdsOf (blocks s) q" using goal by simp
  show "parentOf (blocks ?u) c = parentOf (blocks s) c" using goal by simp
qed


section \<open>Theorems: block tree\<close>


lemma applyOp_ok: "tree_ok s \<Longrightarrow> freshId x s \<Longrightarrow> tree_ok (applyOp x s)"
  by (cases x)
     (simp_all add: createBlockAfter_ok createBlockInside_ok deleteBlock_ok indentBlock_ok
        outdentBlock_ok moveBlockUp_ok moveBlockDown_ok)

lemma trace_ok: "tree_ok s \<Longrightarrow> freshIds s ops \<Longrightarrow> list_all tree_ok (trace s ops)"
proof (induction ops arbitrary: s)
  case Nil
  then show ?case by simp
next
  case (Cons x xs)
  from Cons.prems have f: "freshId x s" and r: "freshIds (applyOp x s) xs" by simp_all
  have "tree_ok (applyOp x s)" using Cons.prems(1) f by (rule applyOp_ok)
  moreover from this r have "list_all tree_ok (trace (applyOp x s) xs)" by (rule Cons.IH)
  ultimately show ?case by simp
qed

text \<open>
  C1. From a state satisfying the tree invariants (no duplicate ids, no dangling ids,
  every live block either a root in the root order or in the \<open>childIds\<close> of its parent),
  the invariants hold after every step of every sequence of \<open>createBlockAfter\<close>,
  \<open>createBlockInside\<close>, \<open>deleteBlock\<close>, \<open>indentBlock\<close>, \<open>outdentBlock\<close>,
  \<open>moveBlockUp\<close> and \<open>moveBlockDown\<close> whose new ids are fresh.
\<close>

theorem tree_inv_preserved:
  "tree_inv s \<Longrightarrow> freshIds s ops \<Longrightarrow> list_all tree_inv (trace s ops)"
  using trace_ok[of s ops] by (simp add: tree_inv_iff_tree_ok[abs_def])

lemma scenario_obs:
  "idOf (blocks scenario) j =
     (if j = ''A'' \<or> j = ''B'' \<or> j = ''C'' then Some j else None)"
  "parentOf (blocks scenario) j =
     (if j = ''A'' then Some None else if j = ''B'' \<or> j = ''C'' then Some (Some ''A'') else None)"
  "childIdsOf (blocks scenario) j = (if j = ''A'' then [''B'', ''C''] else [])"
  "rootIds scenario = [''A'']"
  by (simp_all add: scenario_def idOf_def parentOf_def childIdsOf_def plainBlock_def)

lemma scenario_ok: "tree_ok scenario"
proof (rule tree_okI)
  fix j x assume "idOf (blocks scenario) j = Some x"
  then show "x = j \<and> j \<noteq> []" by (auto simp: scenario_obs split: if_splits)
next
  show "distinct (rootIds scenario)" by (simp add: scenario_obs)
next
  fix p show "distinct (childIdsOf (blocks scenario) p)" by (simp add: scenario_obs)
next
  fix c show "(c \<in> set (rootIds scenario)) = (parentOf (blocks scenario) c = Some None)"
    by (simp add: scenario_obs)
next
  fix p c
  show "(c \<in> set (childIdsOf (blocks scenario) p)) = (parentOf (blocks scenario) c = Some (Some p))"
    by (auto simp: scenario_obs)
qed

text \<open>The theorem on the scenario, for a sequence that creates, moves and deletes.\<close>

theorem tree_inv_preserved_witness:
  "tree_inv scenario \<and>
   freshIds scenario [CreateInside ''B'' ''D'' 1, MoveDown ''B'' 2, Outdent ''C'' 3, Delete ''C''] \<and>
   list_all tree_inv
     (trace scenario [CreateInside ''B'' ''D'' 1, MoveDown ''B'' 2, Outdent ''C'' 3, Delete ''C''])"
proof -
  have i: "tree_inv scenario" using scenario_ok by (simp add: tree_inv_iff_tree_ok)
  have f: "freshIds scenario [CreateInside ''B'' ''D'' 1, MoveDown ''B'' 2, Outdent ''C'' 3, Delete ''C'']"
    by (simp add: scenario_def)
  from tree_inv_preserved[OF i f] i f show ?thesis by (intro conjI)
qed



text \<open>
  C5. In a state satisfying the tree invariants, for a block \<open>i\<close> with a preceding
  sibling, \<open>indentBlock(i)\<close> puts \<open>i\<close> under that sibling, and \<open>outdentBlock(i)\<close>
  right after it gives back the original parent of \<open>i\<close> and every ordered sequence
  (the root order and all \<open>childIds\<close>), so \<open>i\<close> is at its original position among its
  original siblings; no other block changes its parent.
\<close>

theorem indent_then_outdent:
  "tree_inv s \<Longrightarrow> blocks s i = Some b \<Longrightarrow> 0 < indexOf (refs s (parentId b)) i \<Longrightarrow>
   parentOf (blocks (indentBlock i t s)) i =
     Some (Some (refs s (parentId b) ! (nat (indexOf (refs s (parentId b)) i) - 1))) \<and>
   parentOf (blocks (outdentBlock i u (indentBlock i t s))) i = Some (parentId b) \<and>
   refs (outdentBlock i u (indentBlock i t s)) P = refs s P \<and>
   parentOf (blocks (outdentBlock i u (indentBlock i t s))) c = parentOf (blocks s) c"
proof -
  assume inv: "tree_inv s" and b: "blocks s i = Some b"
    and pos: "0 < indexOf (refs s (parentId b)) i"
  have ok: "tree_ok s" using inv by (simp add: tree_inv_iff_tree_ok)
  note r = indent_outdent_restores[OF ok b pos]
  define N where "N = refs s (parentId b) ! (nat (indexOf (refs s (parentId b)) i) - 1)"
  note eff = indentBlock_effect[OF ok b pos N_def]
  have "parentOf (blocks (indentBlock i t s)) i = Some (Some N)"
    using b eff(3)[of t]
    by (cases "parentId b") (simp_all add: obs_simps live_setters)
  moreover have "parentOf (blocks s) i = Some (parentId b)" using b by (simp add: parentOf_def)
  moreover have "refs (outdentBlock i u (indentBlock i t s)) P = refs s P"
    by (cases P) (simp_all add: refs_simps r)
  ultimately show ?thesis unfolding N_def by (simp add: r)
qed

text \<open>The theorem on the scenario: \<open>C\<close>, whose preceding sibling is \<open>B\<close>.\<close>

theorem indent_then_outdent_witness:
  "tree_inv scenario \<and> blocks scenario ''C'' = Some (plainBlock ''C'' (Some ''A'') []) \<and>
   0 < indexOf (refs scenario (Some ''A'')) ''C'' \<and>
   parentOf (blocks (indentBlock ''C'' 1 scenario)) ''C'' = Some (Some ''B'') \<and>
   parentOf (blocks (outdentBlock ''C'' 2 (indentBlock ''C'' 1 scenario))) ''C'' = Some (Some ''A'') \<and>
   refs (outdentBlock ''C'' 2 (indentBlock ''C'' 1 scenario)) (Some ''A'') = [''B'', ''C'']"
proof -
  have i: "tree_inv scenario" using scenario_ok by (simp add: tree_inv_iff_tree_ok)
  have b: "blocks scenario ''C'' = Some (plainBlock ''C'' (Some ''A'') [])"
    by (simp add: scenario_def)
  have p: "parentId (plainBlock ''C'' (Some ''A'') []) = Some ''A''" by (simp add: plainBlock_def)
  have r: "refs scenario (Some ''A'') = [''B'', ''C'']" by (simp add: refs_simps scenario_obs)
  have pos: "0 < indexOf (refs scenario (parentId (plainBlock ''C'' (Some ''A'') []))) ''C''"
    unfolding p r by simp
  have n: "refs scenario (Some ''A'') ! (nat (indexOf (refs scenario (Some ''A'')) ''C'') - 1) = ''B''"
    unfolding r by simp
  note w = indent_then_outdent[OF i b pos, of 1 2 "Some ''A''" "''C''"]
  have w1: "parentOf (blocks (indentBlock ''C'' 1 scenario)) ''C'' = Some (Some ''B'')"
    using w unfolding p n by (elim conjE)
  have w2: "parentOf (blocks (outdentBlock ''C'' 2 (indentBlock ''C'' 1 scenario))) ''C'' = Some (Some ''A'')"
    using w unfolding p by (elim conjE)
  have "refs (outdentBlock ''C'' 2 (indentBlock ''C'' 1 scenario)) (Some ''A'') = refs scenario (Some ''A'')"
    using w by (elim conjE)
  then have w3: "refs (outdentBlock ''C'' 2 (indentBlock ''C'' 1 scenario)) (Some ''A'') = [''B'', ''C'']"
    unfolding r .
  have pos': "0 < indexOf (refs scenario (Some ''A'')) ''C''" using pos unfolding p .
  from i b pos' w1 w2 w3 show ?thesis by (intro conjI)
qed

text \<open>What \<open>deleteBlock\<close> writes, case by case, read off its definition.\<close>

lemma deleteBlock_effect:
  "(getBlock s i = None \<longrightarrow> deleteBlock i s = s) \<and>
   (getBlock s i = Some b \<and> childIds b \<noteq> [] \<longrightarrow> deleteBlock i s = s) \<and>
   (getBlock s i = Some b \<and> childIds b = [] \<longrightarrow>
      blocks (deleteBlock i s) i = None \<and>
      (truthyParent b = Some pid \<longrightarrow>
         rootIds (deleteBlock i s) = rootIds s \<and>
         childIdsOf (blocks (deleteBlock i s)) pid =
           filter (\<lambda>cid. cid \<noteq> i) (childIdsOf (blocks s) pid) \<and>
         (j \<noteq> i \<and> j \<noteq> pid \<longrightarrow> blocks (deleteBlock i s) j = blocks s j)) \<and>
      (truthyParent b = None \<longrightarrow>
         rootIds (deleteBlock i s) = remove1 i (rootIds s) \<and>
         (j \<noteq> i \<longrightarrow> blocks (deleteBlock i s) j = blocks s j)))"
proof (intro conjI impI)
  assume "getBlock s i = None"
  then show "deleteBlock i s = s" by (simp add: deleteBlock_def)
next
  assume "getBlock s i = Some b \<and> childIds b \<noteq> []"
  then show "deleteBlock i s = s" by (simp add: deleteBlock_def)
next
  assume a: "getBlock s i = Some b \<and> childIds b = []"
  then show "blocks (deleteBlock i s) i = None"
    by (cases "truthyParent b") (simp_all add: deleteBlock_def Let_def)
  have bi: "blocks s i = Some b" using a by (cases "blocks s i") (auto simp: getBlock_def split: if_splits)
  {
    assume t: "truthyParent b = Some pid"
    show "rootIds (deleteBlock i s) = rootIds s" using a t by (simp add: deleteBlock_def Let_def)
    have ci: "childIdsOf (blocks s) i = []" using a bi by (simp add: childIdsOf_def)
    have cn: "blocks s pid = None \<Longrightarrow> childIdsOf (blocks s) pid = []" by (simp add: childIdsOf_def)
    show "childIdsOf (blocks (deleteBlock i s)) pid =
           filter (\<lambda>cid. cid \<noteq> i) (childIdsOf (blocks s) pid)"
      using a t ci cn by (cases "pid = i") (auto simp add: deleteBlock_def Let_def obs_simps)
    assume "j \<noteq> i \<and> j \<noteq> pid"
    then show "blocks (deleteBlock i s) j = blocks s j"
      using a t by (simp add: deleteBlock_def Let_def setChildIds_def setValueOnYMap_apply)
  }
  {
    assume t: "truthyParent b = None"
    show "rootIds (deleteBlock i s) = remove1 i (rootIds s)"
      using a t by (simp add: deleteBlock_def removeRoot_remove1)
    assume "j \<noteq> i"
    then show "blocks (deleteBlock i s) j = blocks s j" using a t by (simp add: deleteBlock_def)
  }
qed

text \<open>
  C6. In a state satisfying the tree invariants, \<open>deleteBlock(id)\<close> does nothing when
  the block is missing or has children: the state is unchanged. On a block with no
  children it removes the block record, and removes the id from its parent's \<open>childIds\<close>
  (from the root order when the block is a root), leaving every other record and
  sequence as it was; afterwards the id occurs in no sequence.
\<close>

theorem deleteBlock_leaf_only:
  "tree_inv s \<Longrightarrow>
   (getBlock s i = None \<longrightarrow> deleteBlock i s = s) \<and>
   (getBlock s i = Some b \<and> childIds b \<noteq> [] \<longrightarrow> deleteBlock i s = s) \<and>
   (getBlock s i = Some b \<and> childIds b = [] \<longrightarrow>
      blocks (deleteBlock i s) i = None \<and>
      (truthyParent b = Some pid \<longrightarrow>
         rootIds (deleteBlock i s) = rootIds s \<and>
         childIdsOf (blocks (deleteBlock i s)) pid =
           filter (\<lambda>cid. cid \<noteq> i) (childIdsOf (blocks s) pid) \<and>
         (j \<noteq> i \<and> j \<noteq> pid \<longrightarrow> blocks (deleteBlock i s) j = blocks s j)) \<and>
      (truthyParent b = None \<longrightarrow>
         rootIds (deleteBlock i s) = remove1 i (rootIds s) \<and>
         (j \<noteq> i \<longrightarrow> blocks (deleteBlock i s) j = blocks s j))) \<and>
   (getBlock s i = Some b \<and> childIds b = [] \<longrightarrow> i \<notin> set (refs (deleteBlock i s) P))"
proof -
  assume inv: "tree_inv s"
  then have ok: "tree_ok s" by (simp add: tree_inv_iff_tree_ok)
  note e = deleteBlock_effect[of s i b pid j]
  have r: "getBlock s i = Some b \<and> childIds b = [] \<longrightarrow> i \<notin> set (refs (deleteBlock i s) P)"
  proof
    assume a: "getBlock s i = Some b \<and> childIds b = []"
    note gone = conjunct1[OF conjunct2[OF conjunct2[OF e], THEN mp, OF a]]
    have "tree_ok (deleteBlock i s)" using ok by (rule deleteBlock_ok)
    then have "(i \<in> set (refs (deleteBlock i s) P)) = (parentOf (blocks (deleteBlock i s)) i = Some P)"
      by (simp add: tree_ok_def)
    then show "i \<notin> set (refs (deleteBlock i s) P)" using gone by (simp add: parentOf_def)
  qed
  show ?thesis
  proof (intro conjI)
    show "getBlock s i = None \<longrightarrow> deleteBlock i s = s" by (rule conjunct1[OF e])
    show "getBlock s i = Some b \<and> childIds b \<noteq> [] \<longrightarrow> deleteBlock i s = s"
      by (rule conjunct1[OF conjunct2[OF e]])
    show "getBlock s i = Some b \<and> childIds b = [] \<longrightarrow> i \<notin> set (refs (deleteBlock i s) P)"
      by (rule r)
  qed (rule conjunct2[OF conjunct2[OF e]])
qed

text \<open>The theorem on the scenario: \<open>A\<close> has children, \<open>B\<close> is a leaf under \<open>A\<close>.\<close>

theorem deleteBlock_leaf_only_witness:
  "tree_inv scenario \<and>
   getBlock scenario ''A'' = Some (plainBlock ''A'' None [''B'', ''C'']) \<and>
   childIds (plainBlock ''A'' None [''B'', ''C'']) \<noteq> [] \<and>
   deleteBlock ''A'' scenario = scenario \<and>
   getBlock scenario ''B'' = Some (plainBlock ''B'' (Some ''A'') []) \<and>
   childIds (plainBlock ''B'' (Some ''A'') []) = [] \<and>
   truthyParent (plainBlock ''B'' (Some ''A'') []) = Some ''A'' \<and>
   blocks (deleteBlock ''B'' scenario) ''B'' = None \<and>
   childIdsOf (blocks (deleteBlock ''B'' scenario)) ''A'' = [''C''] \<and>
   blocks (deleteBlock ''B'' scenario) ''C'' = blocks scenario ''C'' \<and>
   ''B'' \<notin> set (refs (deleteBlock ''B'' scenario) (Some ''A''))"
proof -
  have inv: "tree_inv scenario" using scenario_ok by (simp add: tree_inv_iff_tree_ok)
  have ga: "getBlock scenario ''A'' = Some (plainBlock ''A'' None [''B'', ''C'']) \<and>
      childIds (plainBlock ''A'' None [''B'', ''C'']) \<noteq> []"
    by (simp add: getBlock_def scenario_def plainBlock_def)
  have gb: "getBlock scenario ''B'' = Some (plainBlock ''B'' (Some ''A'') []) \<and>
      childIds (plainBlock ''B'' (Some ''A'') []) = []"
    by (simp add: getBlock_def scenario_def plainBlock_def)
  have tb: "truthyParent (plainBlock ''B'' (Some ''A'') []) = Some ''A''"
    by (simp add: truthyParent_def plainBlock_def)
  have ne: "''C'' \<noteq> ''B'' \<and> ''C'' \<noteq> ''A''" by simp
  note wa = deleteBlock_leaf_only[OF inv, of "''A''" "plainBlock ''A'' None [''B'', ''C'']" "''A''" "''A''" None]
  note wb = deleteBlock_leaf_only[OF inv, of "''B''" "plainBlock ''B'' (Some ''A'') []" "''A''" "''C''" "Some ''A''"]
  note a = conjunct1[OF conjunct2[OF wa], THEN mp, OF ga]
  note b1 = conjunct1[OF conjunct2[OF conjunct2[OF wb]], THEN mp, OF gb]
  note b4 = conjunct2[OF conjunct2[OF conjunct2[OF wb]], THEN mp, OF gb]
  note b0 = conjunct1[OF b1]
  note b1' = conjunct1[OF conjunct2[OF b1], THEN mp, OF tb]
  note b2 = conjunct1[OF conjunct2[OF b1']]
  note b3 = conjunct2[OF conjunct2[OF b1'], THEN mp, OF ne]
  have b2': "childIdsOf (blocks (deleteBlock ''B'' scenario)) ''A'' = [''C'']"
    unfolding b2 by (simp add: scenario_obs)
  from inv ga a gb tb b0 b2' b3 b4 show ?thesis by (elim conjE) (intro conjI)
qed




lemma getBlock_scenario:
  "getBlock scenario ''A'' = Some (plainBlock ''A'' None [''B'', ''C''])"
  "getBlock scenario ''B'' = Some (plainBlock ''B'' (Some ''A'') [])"
  "getBlock scenario ''C'' = Some (plainBlock ''C'' (Some ''A'') [])"
  by (simp_all add: getBlock_def scenario_def plainBlock_def)

lemma moveDown_scenario: "moveBlockDown ''B'' t scenario = afterMove t"
  apply (simp add: moveBlockDown_def getBlock_scenario siblingsOf_def truthyParent_def plainBlock_def Let_def swapAt_def)
  apply (simp add: scenario_def afterMove_def setChildIds_def setUpdatedAt_def setValueOnYMap_def plainBlock_def fun_eq_iff)
  done

lemma getBlock_afterMove:
  "getBlock (afterMove t) ''A'' = Some (plainBlock ''A'' None [''C'', ''B''])"
  "getBlock (afterMove t) ''C'' = Some (plainBlock ''C'' (Some ''A'') [])"
  by (simp_all add: getBlock_def afterMove_def plainBlock_def)

lemma outdent_afterMove: "outdentBlock ''C'' u (afterMove t) = afterOutdent t u"
  apply (simp add: outdentBlock_def getBlock_afterMove truthyParent_def plainBlock_def Let_def)
  apply (simp add: afterMove_def afterOutdent_def setChildIds_def setParentId_def setUpdatedAt_def
      setValueOnYMap_def childIdsOf_def plainBlock_def insertAt_def fun_eq_iff)
  done

text \<open>
  C8. In the scenario (root order \<open>[A]\<close>, \<open>A\<close> with the children \<open>[B, C]\<close>),
  \<open>moveBlockDown(B)\<close> makes the children of \<open>A\<close> \<open>[C, B]\<close>; then \<open>outdentBlock(C)\<close>
  makes the root order \<open>[A, C]\<close> and the children of \<open>A\<close> \<open>[B]\<close>, and \<open>C\<close> has no
  parent.
\<close>

theorem scenario_moveDown_outdent:
  "childIdsOf (blocks (moveBlockDown ''B'' t scenario)) ''A'' = [''C'', ''B''] \<and>
   rootIds (outdentBlock ''C'' u (moveBlockDown ''B'' t scenario)) = [''A'', ''C''] \<and>
   childIdsOf (blocks (outdentBlock ''C'' u (moveBlockDown ''B'' t scenario))) ''A'' = [''B''] \<and>
   map_option parentId (blocks (outdentBlock ''C'' u (moveBlockDown ''B'' t scenario)) ''C'') = Some None"
  unfolding moveDown_scenario outdent_afterMove
  by (simp add: afterMove_def afterOutdent_def childIdsOf_def plainBlock_def)


end
